theory Spec2Isabelle
  imports Main "HOL-Library.Char_ord" "HOL-Library.List_Lexorder" "HOL-Library.Product_Lexorder"
begin

text \<open>
  A model of the Nickel file renamer (\<open>nickel_file_renamer.py\<close>): the directory tree
  with its checkboxes, the list of selected items, the request for rename suggestions
  with its worker thread and polling, the table of suggestions, and the application of
  the renames. Each method of \<open>NickelFileRenamer\<close> that the statements below are about
  is a function on the session state \<open>app\<close>, under the method's name; the widgets are
  the fields of the state that hold their contents, and the message boxes are the list
  of dialogs shown so far.
\<close>

section \<open>Paths\<close>

text \<open>
  The program builds and takes apart paths with \<open>os.path.join\<close>, \<open>os.path.basename\<close>
  and \<open>os.path.dirname\<close>. They are modelled as the POSIX versions of the Python
  library compute them, on strings with the separator \<open>/\<close>.
\<close>

definition sep :: char where
  "sep = CHR ''/''"

definition os_path_join :: "string \<Rightarrow> string \<Rightarrow> string" where
  "os_path_join a b =
     (if b \<noteq> [] \<and> hd b = sep then b
      else if a = [] \<or> last a = sep then a @ b
      else a @ [sep] @ b)"

definition os_path_basename :: "string \<Rightarrow> string" where
  "os_path_basename p = rev (takeWhile (\<lambda>c. c \<noteq> sep) (rev p))"

definition os_path_dirname :: "string \<Rightarrow> string" where
  "os_path_dirname p =
     (let head = rev (dropWhile (\<lambda>c. c \<noteq> sep) (rev p))
      in if head \<noteq> [] \<and> \<not> list_all (\<lambda>c. c = sep) head
         then rev (dropWhile (\<lambda>c. c = sep) (rev head))
         else head)"

section \<open>The session state\<close>

text \<open>
  The directory tree is a \<open>ttk.Treeview\<close>. Each item has a text (the basename), the two
  column values \<open>Selected\<close> and \<open>Type\<close>, an open flag and its children in order. The
  \<open>Selected\<close> column holds the ballot box with check, the empty ballot box, or the empty
  string (on the \<open>Loading...\<close> placeholder); they are the three values of \<open>checkbox\<close>.
  An item is addressed by the positions of its ancestors' children, the root item
  (\<open>"root"\<close> in the source) by the empty address.
\<close>

datatype checkbox = Checked | Unchecked | Blank

datatype tnode =
  TNode (item_text: string) (selected: checkbox) (ntype: string) (is_open: bool)
        (children: "tnode list")

type_synonym item_id = "nat list"

text \<open>
  A row of the suggestions table: the three cell values (original name, suggested name,
  type), taken as strings, and whether the row is in the table's selection.
\<close>

datatype row = Row (original: string) (suggested: string) (rtype: string) (in_selection: bool)

text \<open>A message box that was shown: its kind, title and message.\<close>

datatype dialog =
    ShowWarning string string
  | ShowError string string
  | ShowInfo string string

text \<open>
  What the worker thread puts into the queue: the parsed mapping, or the exception
  (kept by its message, which is all the session reads of it).
\<close>

datatype outcome = Suggestions "string \<rightharpoonup> string" | Raised string

text \<open>
  The session: the attributes of \<open>NickelFileRenamer\<close> and the contents of its
  widgets. \<open>selected_items\<close> holds pairs of path and folder flag, \<open>items_tree\<close> the
  rows (name, type) of the selected-items list, \<open>results_tree\<close> the suggestions table.
  A button is \<open>True\<close> while it is enabled. The queue objects created so far are in
  \<open>queues\<close> and \<open>result_queue\<close> is the index of the one held in
  \<open>self.result_queue\<close>; \<open>threads\<close> lists the running worker threads, each by the
  index of the queue it was handed, and \<open>after_calls\<close> counts the polls scheduled with
  \<open>window.after\<close>.
\<close>

record app =
  root_directory :: string
  dir_tree :: tnode
  selected_items :: "(string \<times> bool) list"
  items_tree :: "(string \<times> string) list"
  rename_suggestions :: "string \<rightharpoonup> string"
  results_tree :: "row list"
  dialogs :: "dialog list"
  status_label :: string
  suggestions_button :: bool
  apply_button :: bool
  queues :: "outcome list list"
  result_queue :: nat
  threads :: "nat list"
  after_calls :: nat

section \<open>Tree items\<close>

fun get_item :: "tnode \<Rightarrow> item_id \<Rightarrow> tnode option" where
  "get_item t [] = Some t"
| "get_item t (i # a) =
     (if i < length (children t) then get_item (children t ! i) a else None)"

text \<open>
  \<open>get_full_path\<close>: the root item stands for the root directory, every other item for
  the join of its parent's path and its own text.
\<close>

fun get_full_path :: "string \<Rightarrow> tnode \<Rightarrow> item_id \<Rightarrow> string option" where
  "get_full_path p t [] = Some p"
| "get_full_path p t (i # a) =
     (if i < length (children t)
      then get_full_path (os_path_join p (item_text (children t ! i))) (children t ! i) a
      else None)"

fun update_item :: "item_id \<Rightarrow> (tnode \<Rightarrow> tnode) \<Rightarrow> tnode \<Rightarrow> tnode" where
  "update_item [] f t = f t"
| "update_item (i # a) f (TNode tx s ty opn ks) =
     (if i < length ks then TNode tx s ty opn (ks[i := update_item a f (ks ! i)])
      else TNode tx s ty opn ks)"

definition set_selected :: "checkbox \<Rightarrow> tnode \<Rightarrow> tnode" where
  "set_selected v t = TNode (item_text t) v (ntype t) (is_open t) (children t)"

definition set_open :: "bool \<Rightarrow> tnode \<Rightarrow> tnode" where
  "set_open v t = TNode (item_text t) (selected t) (ntype t) v (children t)"

definition set_children :: "tnode list \<Rightarrow> tnode \<Rightarrow> tnode" where
  "set_children ks t = TNode (item_text t) (selected t) (ntype t) (is_open t) ks"

section \<open>Selecting and deselecting tree items\<close>

fun remove_first :: "('a \<Rightarrow> bool) \<Rightarrow> 'a list \<Rightarrow> 'a list" where
  "remove_first P [] = []"
| "remove_first P (x # xs) = (if P x then xs else x # remove_first P xs)"

definition in_selection_list :: "string \<Rightarrow> (string \<times> bool) list \<Rightarrow> bool" where
  "in_selection_list p sel = list_ex (\<lambda>item. fst item = p) sel"

definition add_tree_item_to_selection :: "app \<Rightarrow> item_id \<Rightarrow> app" where
  "add_tree_item_to_selection s item =
     (case (get_full_path (root_directory s) (dir_tree s) item, get_item (dir_tree s) item) of
        (Some item_path, Some n) \<Rightarrow>
          (let item_type = ntype n; is_folder = (item_type = ''Folder'')
           in if \<not> in_selection_list item_path (selected_items s)
              then s\<lparr>selected_items := selected_items s @ [(item_path, is_folder)],
                     items_tree := items_tree s @ [(os_path_basename item_path, item_type)]\<rparr>
              else s)
      | _ \<Rightarrow> s)"

definition remove_tree_item_from_selection :: "app \<Rightarrow> item_id \<Rightarrow> app" where
  "remove_tree_item_from_selection s item =
     (case get_full_path (root_directory s) (dir_tree s) item of
        Some item_path \<Rightarrow>
          (if in_selection_list item_path (selected_items s)
           then s\<lparr>selected_items := remove_first (\<lambda>e. fst e = item_path) (selected_items s),
                  items_tree := remove_first (\<lambda>r. fst r = os_path_basename item_path) (items_tree s)\<rparr>
           else s)
      | None \<Rightarrow> s)"

text \<open>
  \<open>on_tree_checkbox_click\<close>, for a click that falls on the checkbox cell of the item:
  the branch is chosen by the cell's current value, not by the selection list.
\<close>

definition on_tree_checkbox_click :: "app \<Rightarrow> item_id \<Rightarrow> app" where
  "on_tree_checkbox_click s item =
     (case get_item (dir_tree s) item of
        None \<Rightarrow> s
      | Some n \<Rightarrow>
          (if selected n = Checked
           then remove_tree_item_from_selection
                  (s\<lparr>dir_tree := update_item item (set_selected Unchecked) (dir_tree s)\<rparr>) item
           else add_tree_item_to_selection
                  (s\<lparr>dir_tree := update_item item (set_selected Checked) (dir_tree s)\<rparr>) item))"

definition select_tree_item :: "app \<Rightarrow> item_id \<Rightarrow> app" where
  "select_tree_item s item =
     (case get_item (dir_tree s) item of
        None \<Rightarrow> s
      | Some n \<Rightarrow> add_tree_item_to_selection
                  (s\<lparr>dir_tree := update_item item (set_selected Checked) (dir_tree s)\<rparr>) item)"

definition deselect_tree_item :: "app \<Rightarrow> item_id \<Rightarrow> app" where
  "deselect_tree_item s item =
     (case get_item (dir_tree s) item of
        None \<Rightarrow> s
      | Some n \<Rightarrow> remove_tree_item_from_selection
                  (s\<lparr>dir_tree := update_item item (set_selected Unchecked) (dir_tree s)\<rparr>) item)"

section \<open>The operating system\<close>

text \<open>
  The three calls the session makes, over a filesystem value \<open>'fs\<close>: \<open>os.rename\<close>
  (the message of the exception on the left, the filesystem after the rename on the
  right), \<open>os.listdir\<close> and \<open>os.path.isdir\<close>.
\<close>

datatype os_error = PermissionError | OtherOSError

record 'fs os_api =
  rename :: "'fs \<Rightarrow> string \<Rightarrow> string \<Rightarrow> string + 'fs"
  listdir :: "'fs \<Rightarrow> string \<Rightarrow> os_error + string list"
  isdir :: "'fs \<Rightarrow> string \<Rightarrow> bool"

section \<open>Select contents, clear selection\<close>

fun mark_first :: "string \<Rightarrow> tnode list \<Rightarrow> tnode list" where
  "mark_first name [] = []"
| "mark_first name (k # ks) =
     (if item_text k = name then set_selected Checked k # ks else k # mark_first name ks)"

definition mark_child :: "string \<Rightarrow> tnode \<Rightarrow> tnode" where
  "mark_child name n = set_children (mark_first name (children n)) n"

text \<open>One round of the loop of \<open>select_tree_item_contents\<close> over the listed names.\<close>

definition select_child :: "'fs os_api \<Rightarrow> 'fs \<Rightarrow> item_id \<Rightarrow> string \<Rightarrow> app \<Rightarrow> string \<Rightarrow> app" where
  "select_child os fs item item_path s child_name =
     (let child_path = os_path_join item_path child_name;
          is_folder = isdir os fs child_path
      in if \<not> in_selection_list child_path (selected_items s)
         then s\<lparr>selected_items := selected_items s @ [(child_path, is_folder)],
                items_tree := items_tree s @ [(child_name, if is_folder then ''Folder'' else ''File'')],
                dir_tree := update_item item (mark_child child_name) (dir_tree s)\<rparr>
         else s)"

definition select_tree_item_contents :: "'fs os_api \<Rightarrow> 'fs \<Rightarrow> app \<Rightarrow> item_id \<Rightarrow> app" where
  "select_tree_item_contents os fs s item =
     (case (get_item (dir_tree s) item, get_full_path (root_directory s) (dir_tree s) item) of
        (Some n, Some item_path) \<Rightarrow>
          (if ntype n \<noteq> ''Folder'' then s
           else
             let s1 = s\<lparr>dir_tree := update_item item (set_open True) (dir_tree s)\<rparr>
             in case listdir os fs item_path of
                  Inr names \<Rightarrow> foldl (select_child os fs item item_path) s1 names
                | Inl PermissionError \<Rightarrow>
                    s1\<lparr>dialogs := dialogs s1 @
                         [ShowWarning ''Permission Error'' (''Cannot access '' @ item_path)]\<rparr>
                | Inl OtherOSError \<Rightarrow> s1)
      | _ \<Rightarrow> s)"

fun update_node_and_children :: "bool \<Rightarrow> tnode \<Rightarrow> tnode" where
  "update_node_and_children is_selected (TNode tx s ty opn ks) =
     TNode tx (if is_selected then Checked else Unchecked) ty opn
       (map (update_node_and_children is_selected) ks)"

definition update_all_dir_tree_checkboxes :: "bool \<Rightarrow> app \<Rightarrow> app" where
  "update_all_dir_tree_checkboxes is_selected s =
     s\<lparr>dir_tree := update_node_and_children is_selected (dir_tree s)\<rparr>"

definition clear_selection :: "app \<Rightarrow> app" where
  "clear_selection s =
     update_all_dir_tree_checkboxes False (s\<lparr>selected_items := [], items_tree := []\<rparr>)"

section \<open>Expanding, collapsing, removing from the selected-items list\<close>

definition expand_tree_item :: "app \<Rightarrow> item_id \<Rightarrow> app" where
  "expand_tree_item s item = s\<lparr>dir_tree := update_item item (set_open True) (dir_tree s)\<rparr>"

definition collapse_tree_item :: "app \<Rightarrow> item_id \<Rightarrow> app" where
  "collapse_tree_item s item = s\<lparr>dir_tree := update_item item (set_open False) (dir_tree s)\<rparr>"

text \<open>
  \<open>find_item_by_path\<close>, the helper of \<open>update_dir_tree_checkbox\<close>: a depth-first search
  from the root that only descends into open folders.
\<close>

fun find_item_by_path :: "string \<Rightarrow> tnode \<Rightarrow> string \<Rightarrow> item_id option"
  and find_in_children :: "string \<Rightarrow> tnode list \<Rightarrow> string \<Rightarrow> nat \<Rightarrow> item_id option" where
  "find_item_by_path path (TNode tx s ty opn ks) current_path =
     (if current_path = path then Some []
      else if ty = ''Folder'' \<and> opn then find_in_children path ks current_path 0
      else None)"
| "find_in_children path [] current_path i = None"
| "find_in_children path (k # ks) current_path i =
     (case find_item_by_path path k (os_path_join current_path (item_text k)) of
        Some a \<Rightarrow> Some (i # a)
      | None \<Rightarrow> find_in_children path ks current_path (Suc i))"

definition update_dir_tree_checkbox :: "app \<Rightarrow> string \<Rightarrow> bool \<Rightarrow> app" where
  "update_dir_tree_checkbox s path is_selected =
     (case find_item_by_path path (dir_tree s) (root_directory s) of
        Some found_item \<Rightarrow>
          s\<lparr>dir_tree := update_item found_item
                 (set_selected (if is_selected then Checked else Unchecked)) (dir_tree s)\<rparr>
      | None \<Rightarrow> s)"

definition delete_row :: "nat \<Rightarrow> 'a list \<Rightarrow> 'a list" where
  "delete_row i xs = take i xs @ drop (Suc i) xs"

text \<open>
  \<open>remove_selected_item\<close> for the one row of the selected-items list that the context
  menu has just selected: the entry is looked up by basename.
\<close>

definition remove_selected_item :: "app \<Rightarrow> nat \<Rightarrow> app" where
  "remove_selected_item s i =
     (if i < length (items_tree s) then
        let item_name = fst (items_tree s ! i);
            s1 = (case find (\<lambda>e. os_path_basename (fst e) = item_name) (selected_items s) of
                    Some (path, is_folder) \<Rightarrow>
                      update_dir_tree_checkbox
                        (s\<lparr>selected_items :=
                             remove_first (\<lambda>e. os_path_basename (fst e) = item_name)
                               (selected_items s)\<rparr>)
                        path False
                  | None \<Rightarrow> s)
        in s1\<lparr>items_tree := delete_row i (items_tree s1)\<rparr>
      else s)"

section \<open>Tree and selection in step\<close>

text \<open>
  A name as a directory listing gives it: not empty and free of the separator. A tree is
  well formed when the children of every item carry such names, each at most once.
\<close>

definition name_ok :: "string \<Rightarrow> bool" where
  "name_ok n \<longleftrightarrow> n \<noteq> [] \<and> sep \<notin> set n"

fun wf_tree :: "tnode \<Rightarrow> bool" where
  "wf_tree (TNode tx s ty opn ks) =
     (distinct (map item_text ks) \<and> (\<forall>k \<in> set ks. name_ok (item_text k) \<and> wf_tree k))"

definition os_names_ok :: "'fs os_api \<Rightarrow> bool" where
  "os_names_ok os \<longleftrightarrow>
     (\<forall>fs p names. listdir os fs p = Inr names \<longrightarrow> list_all name_ok names)"

text \<open>Every item of the tree (the placeholders too) with its full path.\<close>

fun all_items :: "string \<Rightarrow> tnode \<Rightarrow> (string \<times> tnode) list" where
  "all_items p (TNode tx s ty opn ks) =
     (p, TNode tx s ty opn ks) # concat (map (\<lambda>k. all_items (os_path_join p (item_text k)) k) ks)"

text \<open>
  The invariant of the specification: an item shows the checked box exactly when its
  path is in the selection list.
\<close>

definition tree_synced :: "app \<Rightarrow> bool" where
  "tree_synced s \<longleftrightarrow>
     list_all (\<lambda>(p, n). (selected n = Checked) = in_selection_list p (selected_items s))
       (all_items (root_directory s) (dir_tree s))"

text \<open>
  The three operations on the tree that change the selection. Select-contents reads the
  filesystem as it is at that moment.
\<close>

datatype 'fs tree_op = ToggleCheck item_id | SelectContents 'fs item_id | ClearSelection

fun tree_step :: "'fs os_api \<Rightarrow> app \<Rightarrow> 'fs tree_op \<Rightarrow> app" where
  "tree_step os s (ToggleCheck item) = on_tree_checkbox_click s item"
| "tree_step os s (SelectContents fs item) = select_tree_item_contents os fs s item"
| "tree_step os s ClearSelection = clear_selection s"

text \<open>Notions used in the proofs only.\<close>

definition base :: "string \<Rightarrow> string" where
  "base p = (if p = [] \<or> last p = sep then p else p @ [sep])"

definition synced :: "string \<Rightarrow> tnode \<Rightarrow> (string \<times> bool) list \<Rightarrow> bool" where
  "synced r t sel \<longleftrightarrow>
     (\<forall>a n q. get_item t a = Some n \<longrightarrow> get_full_path r t a = Some q \<longrightarrow>
        (selected n = Checked \<longleftrightarrow> q \<in> fst ` set sel))"

definition session_ok :: "app \<Rightarrow> bool" where
  "session_ok s \<longleftrightarrow>
     wf_tree (dir_tree s) \<and> distinct (map fst (selected_items s)) \<and> tree_synced s"

fun first_index :: "string \<Rightarrow> tnode list \<Rightarrow> nat option" where
  "first_index name [] = None"
| "first_index name (k # ks) =
     (if item_text k = name then Some 0 else map_option Suc (first_index name ks))"

section \<open>The worker thread\<close>

text \<open>
  \<open>_run_ai_request_thread\<close> posts the request and turns the reply into what it puts in
  the queue. The reply is given as the thread sees it: either \<open>requests.post\<close> raised
  (with the exception's message), or a response came with its status code, the value
  of \<open>response.json()\<close> as read for the error message (\<open>None\<close> when that raises), and
  the result of \<open>response.json()['choices'][0]['message']['content']\<close>: the content
  string, or the message of the exception that reading it (or calling \<open>strip\<close> on a
  content that is not a string) raises.
\<close>

datatype json =
    JNull | JBool bool | JNum int | JStr string | JArr "json list" | JObj "(string \<times> json) list"

datatype reply =
    PostRaised string
  | Response nat "json option" "string + string"

fun show_nat :: "nat \<Rightarrow> string" where
  "show_nat n =
     (if n < 10 then [''0123456789'' ! n]
      else show_nat (n div 10) @ [''0123456789'' ! (n mod 10)])"

text \<open>
  \<open>error_data.get('error', {}).get('message', 'Unknown error')\<close> inside the f-string:
  \<open>None\<close> when one of the two \<open>get\<close> calls raises because its receiver is not a
  dictionary. A value that is not a string is formatted by \<open>fmt\<close>, Python's \<open>str\<close>.
\<close>

definition error_detail :: "(json \<Rightarrow> string) \<Rightarrow> json option \<Rightarrow> string option" where
  "error_detail fmt body =
     (case body of
        Some (JObj error_data) \<Rightarrow>
          (case map_of error_data ''error'' of
             None \<Rightarrow> Some ''Unknown error''
           | Some (JObj err) \<Rightarrow>
               (case map_of err ''message'' of
                  None \<Rightarrow> Some ''Unknown error''
                | Some (JStr m) \<Rightarrow> Some m
                | Some v \<Rightarrow> Some (fmt v))
           | Some _ \<Rightarrow> None)
      | _ \<Rightarrow> None)"

text \<open>\<open>str.strip()\<close>, on the ASCII characters that Python counts as whitespace.\<close>

definition is_space :: "char \<Rightarrow> bool" where
  "is_space c \<longleftrightarrow> (of_char c :: nat) \<in> {9, 10, 11, 12, 13, 28, 29, 30, 31, 32}"

definition strip :: "string \<Rightarrow> string" where
  "strip t = rev (dropWhile is_space (rev (dropWhile is_space t)))"

definition startswith_brace :: "string \<Rightarrow> bool" where
  "startswith_brace t = (case t of [] \<Rightarrow> False | c # _ \<Rightarrow> c = CHR ''{'')"

text \<open>
  \<open>re.search(r'({.*})', text, re.DOTALL)\<close>: the star is greedy and the dot matches
  every character, so the match runs from the first opening brace to the last closing
  brace after it; there is no match when no closing brace follows the first opening one.
\<close>

definition re_search_braces :: "string \<Rightarrow> string option" where
  "re_search_braces t =
     (let from_open = dropWhile (\<lambda>c. c \<noteq> CHR ''{'') t;
          matched = rev (dropWhile (\<lambda>c. c \<noteq> CHR ''}'') (rev from_open))
      in if matched = [] then None else Some matched)"

definition extract_json :: "string \<Rightarrow> string option" where
  "extract_json suggestions_text =
     (if \<not> startswith_brace (strip suggestions_text) then re_search_braces suggestions_text
      else Some suggestions_text)"

text \<open>
  \<open>json_loads\<close> is \<open>json.loads\<close> on a text that starts with a brace: the message of the
  decoding error, or the dictionary; its values are taken to be strings, as the prompt
  asks for.
\<close>

definition run_ai_request_thread ::
    "(json \<Rightarrow> string) \<Rightarrow> (string \<Rightarrow> string + (string \<rightharpoonup> string)) \<Rightarrow> reply \<Rightarrow> outcome" where
  "run_ai_request_thread fmt json_loads r =
     (case r of
        PostRaised m \<Rightarrow> Raised m
      | Response status_code body content \<Rightarrow>
          if status_code \<noteq> 200
          then Raised (''API Error: Status '' @ show_nat status_code @
                       (case error_detail fmt body of None \<Rightarrow> [] | Some m \<Rightarrow> CHR 0x0A # m))
          else
            (case content of
               Inl m \<Rightarrow> Raised m
             | Inr suggestions_text \<Rightarrow>
                 (case extract_json suggestions_text of
                    None \<Rightarrow> Raised ''AI response did not contain a valid JSON object.''
                  | Some text \<Rightarrow>
                      (case json_loads text of
                         Inl m \<Rightarrow> Raised m
                       | Inr suggestions_dict \<Rightarrow> Suggestions suggestions_dict))))"



section \<open>Issuing a request and polling for its result\<close>

definition select_all_suggestions :: "app \<Rightarrow> app" where
  "select_all_suggestions s =
     s\<lparr>results_tree := map (\<lambda>r. Row (original r) (suggested r) (rtype r) True) (results_tree s)\<rparr>"

definition deselect_all_suggestions :: "app \<Rightarrow> app" where
  "deselect_all_suggestions s =
     s\<lparr>results_tree := map (\<lambda>r. Row (original r) (suggested r) (rtype r) False) (results_tree s)\<rparr>"

text \<open>One round of the loop of \<open>_check_ai_thread\<close> over the selected items.\<close>

definition add_suggestion :: "(string \<rightharpoonup> string) \<Rightarrow> app \<Rightarrow> string \<times> bool \<Rightarrow> app" where
  "add_suggestion result s entry =
     (let original_name = os_path_basename (fst entry)
      in case result original_name of
           None \<Rightarrow> s
         | Some suggested_name \<Rightarrow>
             s\<lparr>rename_suggestions := (rename_suggestions s)(original_name \<mapsto> suggested_name),
               results_tree :=
                 remove_first (\<lambda>r. original r = original_name) (results_tree s) @
                 [Row original_name suggested_name (if snd entry then ''Folder'' else ''File'') False]\<rparr>)"

text \<open>
  \<open>_check_ai_thread\<close>: \<open>get_nowait\<close> on the queue held in \<open>self.result_queue\<close>. An empty
  queue schedules the next poll. The queue objects live in \<open>queues\<close>, \<open>result_queue\<close>
  is the index of the current one; \<open>after_calls\<close> counts the scheduled polls.
\<close>

definition check_ai_thread :: "app \<Rightarrow> app" where
  "check_ai_thread s =
     (if result_queue s < length (queues s) then
        (case queues s ! result_queue s of
           [] \<Rightarrow> s\<lparr>after_calls := after_calls s + 1\<rparr>
         | result # rest \<Rightarrow>
             let s1 = s\<lparr>queues := (queues s)[result_queue s := rest]\<rparr>;
                 s2 = (case result of
                         Raised msg \<Rightarrow>
                           s1\<lparr>dialogs := dialogs s1 @
                                [ShowError ''Error'' (''Failed to get AI suggestions: '' @ msg)]\<rparr>
                       | Suggestions result \<Rightarrow>
                           clear_selection
                             (select_all_suggestions
                                (foldl (add_suggestion result) s1 (selected_items s1))))
             in s2\<lparr>status_label := [], suggestions_button := True, apply_button := True\<rparr>)
      else s)"

text \<open>
  \<open>get_ai_suggestions\<close>. The request body (prompt and model name) only travels to the
  service and is not kept; the new thread is recorded by the queue it was handed.
\<close>

definition get_ai_suggestions :: "app \<Rightarrow> app" where
  "get_ai_suggestions s =
     (if selected_items s = [] then
        s\<lparr>dialogs := dialogs s @
             [ShowWarning ''Warning'' ''Please select files or folders first!'']\<rparr>
      else
        check_ai_thread
          (s\<lparr>status_label := ''Generating suggestions...'',
             suggestions_button := False,
             apply_button := False,
             queues := queues s @ [[]],
             result_queue := length (queues s),
             threads := threads s @ [length (queues s)]\<rparr>))"

text \<open>The worker thread at position \<open>k\<close> puts its one outcome into its queue and ends.\<close>

definition thread_finishes :: "nat \<Rightarrow> outcome \<Rightarrow> app \<Rightarrow> app" where
  "thread_finishes k out s =
     (if k < length (threads s) then
        let q = threads s ! k
        in s\<lparr>queues := (queues s)[q := queues s ! q @ [out]],
             threads := delete_row k (threads s)\<rparr>
      else s)"

text \<open>
  What can happen in the session while requests come and go. A click on the button runs
  its command only while the button is enabled (Tk ignores a disabled button); a timer
  event runs one scheduled poll.
\<close>

datatype event =
    ClickSuggestions
  | ThreadDone nat reply
  | AfterTimer
  | ClickCheckbox item_id
  | ClickClearSelection

fun fire ::
    "(json \<Rightarrow> string) \<Rightarrow> (string \<Rightarrow> string + (string \<rightharpoonup> string)) \<Rightarrow> app \<Rightarrow> event \<Rightarrow> app" where
  "fire fmt json_loads s ClickSuggestions =
     (if suggestions_button s then get_ai_suggestions s else s)"
| "fire fmt json_loads s (ThreadDone k r) =
     thread_finishes k (run_ai_request_thread fmt json_loads r) s"
| "fire fmt json_loads s AfterTimer =
     (if 0 < after_calls s then check_ai_thread (s\<lparr>after_calls := after_calls s - 1\<rparr>) else s)"
| "fire fmt json_loads s (ClickCheckbox item) = on_tree_checkbox_click s item"
| "fire fmt json_loads s ClickClearSelection = clear_selection s"





definition idle :: "app \<Rightarrow> bool" where
  "idle s \<longleftrightarrow> suggestions_button s \<and> threads s = [] \<and> after_calls s = 0 \<and>
     (result_queue s < length (queues s) \<longrightarrow> queues s ! result_queue s = [])"


section \<open>Rejecting suggestions\<close>

text \<open>
  \<open>reject_selected_suggestions\<close>, one row of the table after the other: a selected row
  whose original name is a key of \<open>rename_suggestions\<close> is deleted from the table and
  the key from the dictionary. Before that the row's path is looked up by basename in
  \<open>selected_items\<close>, and the entry is added back if no entry has that path.
\<close>

definition reject_readd :: "app \<Rightarrow> row \<Rightarrow> app" where
  "reject_readd s r =
     (case find (\<lambda>e. os_path_basename (fst e) = original r) (selected_items s) of
        Some (path, is_folder) \<Rightarrow>
          (if \<not> in_selection_list path (selected_items s)
           then update_dir_tree_checkbox
                  (s\<lparr>selected_items := selected_items s @ [(path, is_folder)],
                     items_tree := items_tree s @ [(original r, rtype r)]\<rparr>)
                  path True
           else s)
      | None \<Rightarrow> s)"

fun reject_rows :: "app \<Rightarrow> row list \<Rightarrow> app \<times> row list" where
  "reject_rows s [] = (s, [])"
| "reject_rows s (r # rs) =
     (if in_selection r \<and> rename_suggestions s (original r) \<noteq> None
      then reject_rows
             ((reject_readd s r)\<lparr>rename_suggestions :=
                                   (rename_suggestions (reject_readd s r))(original r := None)\<rparr>) rs
      else (let (s', kept) = reject_rows s rs in (s', r # kept)))"

definition reject_selected_suggestions :: "app \<Rightarrow> app" where
  "reject_selected_suggestions s =
     (if filter in_selection (results_tree s) = [] then
        s\<lparr>dialogs := dialogs s @ [ShowWarning ''Warning'' ''Please select suggestions to reject!'']\<rparr>
      else
        (let (s', kept) = reject_rows s (results_tree s) in s'\<lparr>results_tree := kept\<rparr>))"

section \<open>Applying the renames\<close>

text \<open>
  The loop of \<open>apply_renames\<close> carries the filesystem, the session, the two counters
  and, for the statements about filesystem calls, the list of the calls made to
  \<open>os.rename\<close>, in order: source, target, and whether the call returned (\<open>True\<close>)
  or raised (\<open>False\<close>).
\<close>

record 'fs apply_state =
  disk :: 'fs
  session :: app
  renamed_count :: nat
  error_count :: nat
  rename_calls :: "(string \<times> string \<times> bool) list"

text \<open>\<open>idx = xs.index(x); xs[idx] = y\<close>, for an \<open>x\<close> that is in the list.\<close>

fun replace_first :: "'a \<Rightarrow> 'a \<Rightarrow> 'a list \<Rightarrow> 'a list" where
  "replace_first x y [] = []"
| "replace_first x y (z # zs) = (if z = x then y # zs else z # replace_first x y zs)"

definition apply_row :: "'fs os_api \<Rightarrow> 'fs apply_state \<Rightarrow> row \<Rightarrow> 'fs apply_state" where
  "apply_row os st r =
     (let original_name = original r; new_name = suggested r
      in if original_name = new_name then st
         else
           (case find (\<lambda>e. os_path_basename (fst e) = original_name)
                   (selected_items (session st)) of
              None \<Rightarrow> st
            | Some (original_path, is_folder) \<Rightarrow>
                if original_path = [] then st
                else
                  let new_path = os_path_join (os_path_dirname original_path) new_name
                  in case rename os (disk st) original_path new_path of
                       Inr fs' \<Rightarrow>
                         st\<lparr>disk := fs',
                            renamed_count := renamed_count st + 1,
                            rename_calls := rename_calls st @ [(original_path, new_path, True)],
                            session := (session st)
                              \<lparr>selected_items :=
                                 replace_first (original_path, is_folder) (new_path, is_folder)
                                   (selected_items (session st))\<rparr>\<rparr>
                     | Inl msg \<Rightarrow>
                         st\<lparr>error_count := error_count st + 1,
                            rename_calls := rename_calls st @ [(original_path, new_path, False)],
                            session := (session st)
                              \<lparr>dialogs := dialogs (session st) @
                                 [ShowError ''Error''
                                    (''Failed to rename '' @ original_name @ '': '' @ msg)]\<rparr>\<rparr>))"

definition apply_batch :: "'fs os_api \<Rightarrow> 'fs \<Rightarrow> app \<Rightarrow> 'fs apply_state" where
  "apply_batch os fs s =
     foldl (apply_row os)
       \<lparr>disk = fs, session = s, renamed_count = 0, error_count = 0, rename_calls = []\<rparr>
       (filter in_selection (results_tree s))"

definition apply_summary :: "nat \<Rightarrow> nat \<Rightarrow> dialog list" where
  "apply_summary renamed errors =
     (if 0 < renamed then
        [ShowInfo ''Success''
           (''Renamed '' @ show_nat renamed @ '' items successfully.'' @
            (if 0 < errors then '' Failed to rename '' @ show_nat errors @ '' items.'' else []))]
      else if errors = 0 then [ShowInfo ''Info'' ''No items needed renaming.'']
      else [])"

text \<open>
  \<open>populate_directory_tree\<close> rebuilds the tree from the root directory: folders first,
  then by lower-cased name (ASCII letters); a folder gets the \<open>Loading...\<close>
  placeholder. \<open>os.path.isdir\<close> does not raise, so the inner handler that skips an
  item is never entered. A listing error other than a permission error is not caught
  and ends the callback (\<open>Inl\<close>).
\<close>

definition lower :: "string \<Rightarrow> string" where
  "lower t =
     map (\<lambda>c. if 65 \<le> (of_char c :: nat) \<and> (of_char c :: nat) \<le> 90
               then char_of ((of_char c :: nat) + 32) else c) t"

definition populate_directory_subtree ::
    "'fs os_api \<Rightarrow> 'fs \<Rightarrow> (string \<times> bool) list \<Rightarrow> string \<Rightarrow> os_error + tnode list" where
  "populate_directory_subtree os fs sel parent_path =
     (case listdir os fs parent_path of
        Inl e \<Rightarrow> Inl e
      | Inr items \<Rightarrow>
          Inr (map (\<lambda>item.
                 let item_path = os_path_join parent_path item;
                     is_dir = isdir os fs item_path
                 in TNode item
                      (if in_selection_list item_path sel then Checked else Unchecked)
                      (if is_dir then ''Folder'' else ''File'')
                      False
                      (if is_dir then [TNode ''Loading...'' Blank [] False []] else []))
               (sort_key (\<lambda>x. (if isdir os fs (os_path_join parent_path x) then 0 else 1 :: nat,
                                lower x)) items)))"

definition populate_directory_tree :: "'fs os_api \<Rightarrow> 'fs \<Rightarrow> app \<Rightarrow> app + app" where
  "populate_directory_tree os fs s =
     (let root_name = (if os_path_basename (root_directory s) = [] then root_directory s
                       else os_path_basename (root_directory s));
          root = TNode root_name Unchecked ''Folder'' True
      in case populate_directory_subtree os fs (selected_items s) (root_directory s) of
           Inr ks \<Rightarrow> Inr (s\<lparr>dir_tree := root ks\<rparr>)
         | Inl PermissionError \<Rightarrow>
             Inr (s\<lparr>dir_tree := root [],
                    dialogs := dialogs s @
                      [ShowWarning ''Permission Error'' (''Cannot access '' @ root_directory s)]\<rparr>)
         | Inl OtherOSError \<Rightarrow> Inl (s\<lparr>dir_tree := root []\<rparr>))"

definition apply_renames :: "'fs os_api \<Rightarrow> 'fs \<Rightarrow> app \<Rightarrow> 'fs \<times> app" where
  "apply_renames os fs s =
     (if filter in_selection (results_tree s) = [] then
        (fs, s\<lparr>dialogs := dialogs s @ [ShowWarning ''Warning'' ''Please select items to rename!'']\<rparr>)
      else
        let st = apply_batch os fs s;
            s1 = (session st)\<lparr>dialogs := dialogs (session st) @
                     apply_summary (renamed_count st) (error_count st)\<rparr>
        in case populate_directory_tree os (disk st) s1 of
             Inl s2 \<Rightarrow> (disk st, s2)
           | Inr s2 \<Rightarrow>
               (disk st,
                s2\<lparr>items_tree :=
                     map (\<lambda>e. (os_path_basename (fst e), if snd e then ''Folder'' else ''File''))
                       (selected_items s2)\<rparr>))"

section \<open>Notions used in the proofs about requests and renames\<close>




section \<open>A small session\<close>

text \<open>
  A concrete filesystem and session for the examples: the root directory \<open>/r\<close> with the
  folder \<open>d\<close> (holding \<open>a.txt\<close> and \<open>b.txt\<close>) and the file \<open>c.txt\<close>; the folder is
  expanded in the tree. The filesystem is the list of its paths, each with its
  directory flag; a rename fails when the source is missing or the target exists.
\<close>

type_synonym demo_fs = "(string \<times> bool) list"

definition demo_rename :: "demo_fs \<Rightarrow> string \<Rightarrow> string \<Rightarrow> string + demo_fs" where
  "demo_rename fs src dst =
     (if \<not> list_ex (\<lambda>e. fst e = src) fs then Inl ''No such file or directory''
      else if list_ex (\<lambda>e. fst e = dst) fs then Inl ''File exists''
      else Inr (map (\<lambda>e. if fst e = src then (dst, snd e) else e) fs))"

definition demo_listdir :: "demo_fs \<Rightarrow> string \<Rightarrow> os_error + string list" where
  "demo_listdir fs p =
     Inr (filter (\<lambda>n. n \<noteq> [])
            (map (\<lambda>e. os_path_basename (fst e)) (filter (\<lambda>e. os_path_dirname (fst e) = p) fs)))"

definition demo_isdir :: "demo_fs \<Rightarrow> string \<Rightarrow> bool" where
  "demo_isdir fs p = list_ex (\<lambda>e. e = (p, True)) fs"

definition demo_os :: "demo_fs os_api" where
  "demo_os = \<lparr>rename = demo_rename, listdir = demo_listdir, isdir = demo_isdir\<rparr>"

definition demo_disk :: demo_fs where
  "demo_disk = [(''/r'', True), (''/r/d'', True), (''/r/d/a.txt'', False),
                (''/r/d/b.txt'', False), (''/r/c.txt'', False)]"

definition demo_tree :: tnode where
  "demo_tree =
     TNode ''r'' Unchecked ''Folder'' True
       [TNode ''d'' Unchecked ''Folder'' True
          [TNode ''a.txt'' Unchecked ''File'' False [],
           TNode ''b.txt'' Unchecked ''File'' False []],
        TNode ''c.txt'' Unchecked ''File'' False []]"

definition demo_session :: app where
  "demo_session =
     \<lparr>root_directory = ''/r'', dir_tree = demo_tree, selected_items = [], items_tree = [],
      rename_suggestions = Map.empty, results_tree = [], dialogs = [], status_label = [],
      suggestions_button = True, apply_button = True, queues = [], result_queue = 0,
      threads = [], after_calls = 0\<rparr>"

text \<open>
  A stand-in for \<open>json.loads\<close> that knows the replies used in the examples, and the
  service's reply with a given content.
\<close>

definition demo_json_loads :: "string \<Rightarrow> string + (string \<rightharpoonup> string)" where
  \<open>demo_json_loads t =
     (if t = ''{"a.txt": "a2.txt"}'' then Inr [''a.txt'' \<mapsto> ''a2.txt'']
      else if t = ''{"a.txt": "c.txt"}'' then Inr [''a.txt'' \<mapsto> ''c.txt'']
      else if t = ''{"c.txt": "z.txt"}'' then Inr [''c.txt'' \<mapsto> ''z.txt'']
      else Inl ''Expecting value'')\<close>

definition demo_fire :: "app \<Rightarrow> event \<Rightarrow> app" where
  "demo_fire = fire (\<lambda>v. []) demo_json_loads"

definition reply_with :: "string \<Rightarrow> reply" where
  "reply_with content = Response 200 None (Inr content)"

text \<open>
  The example of the specification: \<open>a.txt\<close> and \<open>b.txt\<close> are checked, suggestions are
  requested, the service answers for \<open>a.txt\<close> only, and the poll finds the answer.
\<close>

definition partial_answer_session :: app where
  \<open>partial_answer_session =
     foldl demo_fire demo_session
       [ClickCheckbox [0, 0], ClickCheckbox [0, 1], ClickSuggestions,
        ThreadDone 0 (reply_with ''{"a.txt": "a2.txt"}''), AfterTimer]\<close>

text \<open>
  Two requests leave the rows \<open>a.txt \<rightarrow> c.txt\<close> and \<open>c.txt \<rightarrow> z.txt\<close> in the table
  (the second from \<open>/r/c.txt\<close>); then \<open>/r/d/a.txt\<close> alone is checked again.
\<close>

definition chain_session :: app where
  \<open>chain_session =
     foldl demo_fire demo_session
       [ClickCheckbox [0, 0], ClickSuggestions,
        ThreadDone 0 (reply_with ''{"a.txt": "c.txt"}''), AfterTimer,
        ClickCheckbox [1], ClickSuggestions,
        ThreadDone 0 (reply_with ''{"c.txt": "z.txt"}''), AfterTimer,
        ClickCheckbox [0, 0]]\<close>


text \<open>One file selected and one row accepted, whose target exists already.\<close>

definition collision_session :: app where
  "collision_session =
     demo_session
       \<lparr>selected_items := [(''/r/d/a.txt'', False)],
        results_tree := [Row ''a.txt'' ''b.txt'' ''File'' True]\<rparr>"



text \<open>
  \<open>a.txt\<close> is checked, its folder collapsed, the entry removed through the
  selected-items list, and the folder opened again.
\<close>

definition stale_box_session :: app where
  "stale_box_session =
     expand_tree_item
       (remove_selected_item
          (collapse_tree_item (on_tree_checkbox_click demo_session [0, 0]) [0]) 0) [0]"

section \<open>Facts about tree items and paths\<close>

lemma get_item_update_same:
  "get_item (update_item a f t) a = map_option f (get_item t a)"
proof (induction a arbitrary: t)
  case Nil
  then show ?case by simp
next
  case (Cons i a)
  then show ?case by (cases t) simp
qed

lemma item_text_update_item:
  "(\<And>n. item_text (f n) = item_text n) \<Longrightarrow> item_text (update_item a f t) = item_text t"
  by (cases a; cases t) simp_all

lemma get_full_path_update_item:
  assumes tx: "\<And>n. item_text (f n) = item_text n"
    and pth: "\<And>n b p. get_full_path p (f n) b = get_full_path p n b"
  shows "get_full_path p (update_item a f t) b = get_full_path p t b"
proof (induction a arbitrary: t b p)
  case Nil
  then show ?case by (simp add: pth)
next
  case (Cons i a)
  show ?case
  proof (cases b)
    case Nil
    then show ?thesis by simp
  next
    case (Cons j b')
    obtain tx' s ty opn ks where t: "t = TNode tx' s ty opn ks" by (cases t)
    show ?thesis
      using Cons.IH[where t="ks ! i" and b=b'] item_text_update_item[where f=f and a=a and t="ks ! i", OF tx]
      by (auto simp: t Cons nth_list_update)
  qed
qed

lemma get_full_path_set_selected_node:
  "get_full_path p (set_selected v n) b = get_full_path p n b"
  by (cases b) (simp_all add: set_selected_def)

lemma get_full_path_set_selected:
  "get_full_path p (update_item a (set_selected v) t) b = get_full_path p t b"
  by (rule get_full_path_update_item) (simp_all add: get_full_path_set_selected_node, simp add: set_selected_def)

lemma in_selection_list_iff: "in_selection_list p sel \<longleftrightarrow> p \<in> fst ` set sel"
  by (auto simp: in_selection_list_def list_ex_iff)

lemma set_remove_first_subset: "set (remove_first P xs) \<subseteq> set xs"
  by (induction xs) auto

lemma remove_first_append_new:
  "\<not> list_ex P xs \<Longrightarrow> P x \<Longrightarrow> remove_first P (xs @ [x]) = xs"
  by (induction xs) auto

lemma remove_first_paths_insert:
  "insert p (fst ` set (remove_first (\<lambda>e. fst e = p) xs)) = insert p (fst ` set xs)"
  by (induction xs) auto

lemma remove_first_paths_subset:
  "fst ` set (remove_first (\<lambda>e. fst e = p) xs) \<subseteq> fst ` set xs"
  using set_remove_first_subset[of "\<lambda>e. fst e = p" xs] by blast

lemma get_item_set_selected:
  "get_item t a = Some n \<Longrightarrow>
   get_item (update_item a (set_selected v) t) a = Some (set_selected v n)"
  by (simp add: get_item_update_same)

lemma click_unchecked:
  assumes "get_item (dir_tree s) item = Some n"
    and "get_full_path (root_directory s) (dir_tree s) item = Some p"
    and "selected n \<noteq> Checked"
  shows "selected_items (on_tree_checkbox_click s item) =
           (if p \<in> fst ` set (selected_items s) then selected_items s
            else selected_items s @ [(p, ntype n = ''Folder'')])"
    and "get_item (dir_tree (on_tree_checkbox_click s item)) item = Some (set_selected Checked n)"
    and "root_directory (on_tree_checkbox_click s item) = root_directory s"
    and "get_full_path (root_directory s) (dir_tree (on_tree_checkbox_click s item)) item = Some p"
  using assms
  by (simp_all add: on_tree_checkbox_click_def add_tree_item_to_selection_def
      get_full_path_set_selected get_item_update_same in_selection_list_iff set_selected_def Let_def)

lemma click_checked:
  assumes "get_item (dir_tree s) item = Some n"
    and "get_full_path (root_directory s) (dir_tree s) item = Some p"
    and "selected n = Checked"
  shows "selected_items (on_tree_checkbox_click s item) =
           remove_first (\<lambda>e. fst e = p) (selected_items s)"
    and "get_item (dir_tree (on_tree_checkbox_click s item)) item = Some (set_selected Unchecked n)"
    and "root_directory (on_tree_checkbox_click s item) = root_directory s"
    and "get_full_path (root_directory s) (dir_tree (on_tree_checkbox_click s item)) item = Some p"
proof -
  have nf: "\<not> list_ex P xs \<Longrightarrow> remove_first P xs = xs" for P and xs :: "(string \<times> bool) list"
    by (induction xs) auto
  show "selected_items (on_tree_checkbox_click s item) =
           remove_first (\<lambda>e. fst e = p) (selected_items s)"
    using assms nf[of "\<lambda>e. fst e = p" "selected_items s"]
    by (simp add: on_tree_checkbox_click_def remove_tree_item_from_selection_def
        get_full_path_set_selected in_selection_list_def)
  show "get_item (dir_tree (on_tree_checkbox_click s item)) item = Some (set_selected Unchecked n)"
    and "root_directory (on_tree_checkbox_click s item) = root_directory s"
    and "get_full_path (root_directory s) (dir_tree (on_tree_checkbox_click s item)) item = Some p"
    using assms
    by (simp_all add: on_tree_checkbox_click_def remove_tree_item_from_selection_def
      get_full_path_set_selected get_item_update_same)
qed

lemma toggle_twice_effect:
  assumes item: "get_item (dir_tree s) item = Some n"
    and path: "get_full_path (root_directory s) (dir_tree s) item = Some p"
    and sync: "selected n = Checked \<longleftrightarrow> p \<in> fst ` set (selected_items s)"
  shows "fst ` set (selected_items (on_tree_checkbox_click (on_tree_checkbox_click s item) item))
           = fst ` set (selected_items s)"
    and "map_option (\<lambda>m. selected m = Checked)
           (get_item (dir_tree (on_tree_checkbox_click (on_tree_checkbox_click s item) item)) item)
           = Some (selected n = Checked)"
    and "p \<notin> fst ` set (selected_items s) \<Longrightarrow>
           selected_items (on_tree_checkbox_click (on_tree_checkbox_click s item) item)
             = selected_items s"
proof -
  let ?s1 = "on_tree_checkbox_click s item"
  let ?s2 = "on_tree_checkbox_click ?s1 item"
  show "fst ` set (selected_items ?s2) = fst ` set (selected_items s)"
  proof (cases "selected n = Checked")
    case True
    note c1 = click_checked[OF item path True]
    have u: "selected (set_selected Unchecked n) \<noteq> Checked" by (simp add: set_selected_def)
    have p1: "get_full_path (root_directory ?s1) (dir_tree ?s1) item = Some p"
      using c1 by simp
    note c2 = click_unchecked[OF c1(2) p1 u]
    have pin: "p \<in> fst ` set (selected_items s)" using True sync by simp
    have "fst ` set (selected_items ?s2) = insert p (fst ` set (selected_items ?s1))"
      using c2(1) by (auto split: if_splits)
    also have "\<dots> = insert p (fst ` set (selected_items s))"
      using c1(1) remove_first_paths_insert[of p "selected_items s"] by simp
    also have "\<dots> = fst ` set (selected_items s)"
      using pin by blast
    finally show ?thesis .
  next
    case False
    note c1 = click_unchecked[OF item path False]
    have u: "selected (set_selected Checked n) = Checked" by (simp add: set_selected_def)
    have p1: "get_full_path (root_directory ?s1) (dir_tree ?s1) item = Some p"
      using c1 by simp
    note c2 = click_checked[OF c1(2) p1 u]
    have pnin: "p \<notin> fst ` set (selected_items s)" using False sync by simp
    have "list_ex (\<lambda>e. fst e = p) (selected_items s) = False"
      using pnin by (auto simp: list_ex_iff)
    then show ?thesis
      using c2(1) c1(1) pnin by (simp add: remove_first_append_new)
  qed
  show "map_option (\<lambda>m. selected m = Checked) (get_item (dir_tree ?s2) item)
          = Some (selected n = Checked)"
  proof (cases "selected n = Checked")
    case True
    note c1 = click_checked[OF item path True]
    have u: "selected (set_selected Unchecked n) \<noteq> Checked" by (simp add: set_selected_def)
    have p1: "get_full_path (root_directory ?s1) (dir_tree ?s1) item = Some p"
      using c1 by simp
    note c2 = click_unchecked[OF c1(2) p1 u]
    show ?thesis using c2(2) True by (simp add: set_selected_def)
  next
    case False
    note c1 = click_unchecked[OF item path False]
    have u: "selected (set_selected Checked n) = Checked" by (simp add: set_selected_def)
    have p1: "get_full_path (root_directory ?s1) (dir_tree ?s1) item = Some p"
      using c1 by simp
    note c2 = click_checked[OF c1(2) p1 u]
    show ?thesis using c2(2) False by (simp add: set_selected_def)
  qed
  show "selected_items ?s2 = selected_items s" if pnin: "p \<notin> fst ` set (selected_items s)"
  proof -
    have False': "selected n \<noteq> Checked" using sync pnin by simp
    note c1 = click_unchecked[OF item path False']
    have u: "selected (set_selected Checked n) = Checked" by (simp add: set_selected_def)
    have p1: "get_full_path (root_directory ?s1) (dir_tree ?s1) item = Some p"
      using c1 by simp
    note c2 = click_checked[OF c1(2) p1 u]
    have "list_ex (\<lambda>e. fst e = p) (selected_items s) = False"
      using pnin by (auto simp: list_ex_iff)
    then show ?thesis
      using c2(1) c1(1) pnin by (simp add: remove_first_append_new)
  qed
qed

lemma join_ok: "name_ok n \<Longrightarrow> os_path_join p n = base p @ n"
  by (cases n) (auto simp: name_ok_def os_path_join_def base_def)

lemma join_ok_props:
  assumes "name_ok n"
  shows "os_path_join p n \<noteq> []" and "last (os_path_join p n) \<noteq> sep"
    and "length p < length (os_path_join p n)"
proof -
  have ln: "last n \<noteq> sep" by (metis assms last_in_set name_ok_def)
  show "os_path_join p n \<noteq> []" and "last (os_path_join p n) \<noteq> sep"
    and "length p < length (os_path_join p n)"
    using assms ln by (auto simp: join_ok name_ok_def base_def)
qed

lemma base_nonroot: "q \<noteq> [] \<Longrightarrow> last q \<noteq> sep \<Longrightarrow> base q = q @ [sep]"
  by (simp add: base_def)

lemma sepfree_split:
  assumes "sep \<notin> set m" "sep \<notin> set n" "m @ r = n @ r'"
    and "r = [] \<or> hd r = sep" "r' = [] \<or> hd r' = sep"
  shows "m = n \<and> r = r'"
proof -
  have tw: "sep \<notin> set x \<Longrightarrow> y = [] \<or> hd y = sep \<Longrightarrow>
              takeWhile (\<lambda>c. c \<noteq> sep) (x @ y) = x" for x y
    by (induction x) (auto, cases y, auto)
  have tm: "takeWhile (\<lambda>c. c \<noteq> sep) (m @ r) = m"
    using assms(1,4) by (rule tw)
  have tn: "takeWhile (\<lambda>c. c \<noteq> sep) (n @ r') = n"
    using assms(2,5) by (rule tw)
  from tm tn assms(3) have "m = n" by simp
  with assms(3) show ?thesis by simp
qed

lemma get_full_path_snoc:
  "get_full_path p t (a @ [j]) =
     (case (get_full_path p t a, get_item t a) of
        (Some q, Some n) \<Rightarrow>
           if j < length (children n) then Some (os_path_join q (item_text (children n ! j)))
           else None
      | _ \<Rightarrow> None)"
proof (induction a arbitrary: p t)
  case Nil
  then show ?case by simp
next
  case (Cons i a)
  then show ?case by simp
qed

lemma get_item_snoc:
  "get_item t (a @ [j]) =
     (case get_item t a of
        Some n \<Rightarrow> if j < length (children n) then Some (children n ! j) else None
      | None \<Rightarrow> None)"
  by (induction a arbitrary: t) simp_all

lemma get_full_path_defined:
  "(get_full_path p t a = None) = (get_item t a = None)"
  by (induction a arbitrary: p t) simp_all

lemma wf_tree_child:
  "wf_tree t \<Longrightarrow> i < length (children t) \<Longrightarrow>
     wf_tree (children t ! i) \<and> name_ok (item_text (children t ! i))"
  by (cases t) simp

lemma wf_tree_get_item:
  "wf_tree t \<Longrightarrow> get_item t a = Some n \<Longrightarrow> wf_tree n"
proof (induction a arbitrary: t)
  case Nil
  then show ?case by simp
next
  case (Cons i a)
  then show ?case using wf_tree_child[of t i] by (auto split: if_splits)
qed

lemma get_full_path_length:
  assumes "wf_tree t" "get_full_path p t a = Some q"
  shows "length p \<le> length q"
    and "a \<noteq> [] \<Longrightarrow> length p < length q \<and> q \<noteq> [] \<and> last q \<noteq> sep"
proof -
  have "length p \<le> length q \<and> (a \<noteq> [] \<longrightarrow> length p < length q \<and> q \<noteq> [] \<and> last q \<noteq> sep)"
    using assms
  proof (induction a arbitrary: q rule: rev_induct)
    case Nil
    then show ?case by simp
  next
    case (snoc j a)
    from snoc.prems(2) obtain q' n where
      q': "get_full_path p t a = Some q'" and n: "get_item t a = Some n"
      and j: "j < length (children n)" and q: "q = os_path_join q' (item_text (children n ! j))"
      by (auto simp: get_full_path_snoc split: option.splits if_splits)
    have "wf_tree n" using wf_tree_get_item[OF snoc.prems(1) n] .
    then have ok: "name_ok (item_text (children n ! j))" using wf_tree_child j by blast
    have "length p \<le> length q'" using snoc.IH[OF snoc.prems(1) q'] by simp
    then show ?case using join_ok_props[OF ok, of q'] q by simp
  qed
  then show "length p \<le> length q"
    and "a \<noteq> [] \<Longrightarrow> length p < length q \<and> q \<noteq> [] \<and> last q \<noteq> sep" by simp_all
qed

lemma join_inj_tree:
  assumes wf: "wf_tree t"
    and qa: "get_full_path p t a = Some qa" and qb: "get_full_path p t b = Some qb"
    and m: "name_ok m" and n: "name_ok n"
    and eq: "os_path_join qa m = os_path_join qb n"
  shows "qa = qb \<and> m = n"
proof -
  have e: "base qa @ m = base qb @ n" using eq m n by (simp add: join_ok)
  have la: "length p \<le> length qa" and lb: "length p \<le> length qb"
    using get_full_path_length(1)[OF wf qa] get_full_path_length(1)[OF wf qb] by simp_all
  have nra: "a \<noteq> [] \<Longrightarrow> base qa = qa @ [sep] \<and> length p < length qa"
    using get_full_path_length(2)[OF wf qa] by (simp add: base_nonroot)
  have nrb: "b \<noteq> [] \<Longrightarrow> base qb = qb @ [sep] \<and> length p < length qb"
    using get_full_path_length(2)[OF wf qb] by (simp add: base_nonroot)
  have ra: "a = [] \<Longrightarrow> qa = p" using qa by simp
  have rb: "b = [] \<Longrightarrow> qb = p" using qb by simp
  have mn: "m = n \<and> base qa = base qb"
  proof -
    have rm: "rev m @ rev (base qa) = rev n @ rev (base qb)"
      using e by (metis rev_append)
    have h: "rev (base x) = [] \<or> hd (rev (base x)) = sep" for x
      by (auto simp: base_def hd_rev)
    have "rev m = rev n \<and> rev (base qa) = rev (base qb)"
      using sepfree_split[of "rev m" "rev n" "rev (base qa)" "rev (base qb)"] rm h m n
      by (simp add: name_ok_def)
    then show ?thesis by simp
  qed
  have "qa = qb"
  proof (cases "a = []")
    case True
    show ?thesis
    proof (cases "b = []")
      case True
      then show ?thesis using ra rb \<open>a = []\<close> by simp
    next
      case False
      have "base p = qb @ [sep]" using mn nrb[OF False] ra[OF True] by simp
      then have "p = qb \<or> p = qb @ [sep]"
        by (auto simp: base_def split: if_splits)
      then show ?thesis using nrb[OF False] by auto
    qed
  next
    case False
    show ?thesis
    proof (cases "b = []")
      case True
      have "base p = qa @ [sep]" using mn nra[OF False] rb[OF True] by simp
      then have "p = qa \<or> p = qa @ [sep]"
        by (auto simp: base_def split: if_splits)
      then show ?thesis using nra[OF False] by auto
    next
      case False
      then show ?thesis using mn nra[OF \<open>a \<noteq> []\<close>] nrb[OF False] by simp
    qed
  qed
  then show ?thesis using mn by simp
qed

lemma get_full_path_inj:
  assumes wf: "wf_tree t"
  shows "get_full_path p t a = Some q \<Longrightarrow> get_full_path p t b = Some q \<Longrightarrow> a = b"
proof (induction a arbitrary: b q rule: rev_induct)
  case Nil
  show ?case
  proof (cases b)
    case Nil
    then show ?thesis by simp
  next
    case (Cons j b')
    then show ?thesis
      using get_full_path_length(2)[OF wf Nil.prems(2)] Nil.prems(1) by simp
  qed
next
  case (snoc i a)
  show ?case
  proof (cases b rule: rev_cases)
    case Nil
    then show ?thesis
      using get_full_path_length(2)[OF wf snoc.prems(1)] snoc.prems(2) by simp
  next
    case (snoc b' j)
    from snoc.prems(1) obtain qa na where
      qa: "get_full_path p t a = Some qa" and na: "get_item t a = Some na"
      and i: "i < length (children na)" and q1: "q = os_path_join qa (item_text (children na ! i))"
      by (auto simp: get_full_path_snoc split: option.splits if_splits)
    from snoc.prems(2) snoc obtain qb nb where
      qb: "get_full_path p t b' = Some qb" and nb: "get_item t b' = Some nb"
      and j: "j < length (children nb)" and q2: "q = os_path_join qb (item_text (children nb ! j))"
      by (auto simp: get_full_path_snoc split: option.splits if_splits)
    have wa: "wf_tree na" and wb: "wf_tree nb"
      using wf_tree_get_item[OF wf na] wf_tree_get_item[OF wf nb] by simp_all
    have oka: "name_ok (item_text (children na ! i))" using wf_tree_child[OF wa i] by simp
    have okb: "name_ok (item_text (children nb ! j))" using wf_tree_child[OF wb j] by simp
    have "qa = qb \<and> item_text (children na ! i) = item_text (children nb ! j)"
      using join_inj_tree[OF wf qa qb oka okb] q1 q2 by simp
    then have ab: "a = b'" and tx: "item_text (children na ! i) = item_text (children nb ! j)"
      using snoc.IH[OF qa] qb by simp_all
    then have nn: "na = nb" using na nb by simp
    have "distinct (map item_text (children na))" using wa by (cases na) simp
    then have "i = j"
      using tx i j nn by (auto simp: distinct_conv_nth)
    then show ?thesis using ab snoc by simp
  qed
qed

lemma all_items_iff:
  "(q, n) \<in> set (all_items p t) \<longleftrightarrow>
     (\<exists>a. get_item t a = Some n \<and> get_full_path p t a = Some q)"
proof
  show "(q, n) \<in> set (all_items p t) \<Longrightarrow>
          \<exists>a. get_item t a = Some n \<and> get_full_path p t a = Some q"
  proof (induction t arbitrary: p)
    case (TNode tx s ty opn ks)
    show ?case
    proof (cases "(q, n) = (p, TNode tx s ty opn ks)")
      case True
      then have "get_item (TNode tx s ty opn ks) [] = Some n \<and>
                 get_full_path p (TNode tx s ty opn ks) [] = Some q" by simp
      then show ?thesis by blast
    next
      case False
      with TNode.prems obtain k where k: "k \<in> set ks"
        and mem: "(q, n) \<in> set (all_items (os_path_join p (item_text k)) k)"
        by auto
      from TNode.IH[OF k mem] obtain a where
        a: "get_item k a = Some n" "get_full_path (os_path_join p (item_text k)) k a = Some q"
        by blast
      from k obtain i where i: "i < length ks" "ks ! i = k" by (auto simp: in_set_conv_nth)
      have "get_item (TNode tx s ty opn ks) (i # a) = Some n \<and>
            get_full_path p (TNode tx s ty opn ks) (i # a) = Some q"
        using a i by simp
      then show ?thesis by blast
    qed
  qed
next
  assume "\<exists>a. get_item t a = Some n \<and> get_full_path p t a = Some q"
  then obtain a where "get_item t a = Some n" "get_full_path p t a = Some q" by blast
  then show "(q, n) \<in> set (all_items p t)"
  proof (induction a arbitrary: t p)
    case Nil
    obtain tx s ty opn ks where t: "t = TNode tx s ty opn ks" by (cases t)
    from Nil have "n = t" "q = p" by simp_all
    then show ?case by (simp add: t)
  next
    case (Cons i a)
    obtain tx s ty opn ks where t: "t = TNode tx s ty opn ks" by (cases t)
    from Cons.prems have i: "i < length ks"
      and g: "get_item (ks ! i) a = Some n"
      and f: "get_full_path (os_path_join p (item_text (ks ! i))) (ks ! i) a = Some q"
      by (auto simp: t split: if_splits)
    have "(q, n) \<in> set (all_items (os_path_join p (item_text (ks ! i))) (ks ! i))"
      using Cons.IH[OF g f] .
    moreover have "ks ! i \<in> set ks" using i by simp
    ultimately show ?case by (auto simp: t)
  qed
qed

lemma tree_synced_iff:
  "tree_synced s \<longleftrightarrow>
     (\<forall>a n q. get_item (dir_tree s) a = Some n \<longrightarrow>
        get_full_path (root_directory s) (dir_tree s) a = Some q \<longrightarrow>
        (selected n = Checked \<longleftrightarrow> q \<in> fst ` set (selected_items s)))"
proof -
  have "tree_synced s \<longleftrightarrow>
     (\<forall>q n. (q, n) \<in> set (all_items (root_directory s) (dir_tree s)) \<longrightarrow>
        (selected n = Checked \<longleftrightarrow> q \<in> fst ` set (selected_items s)))"
    by (auto simp: tree_synced_def list_all_iff in_selection_list_iff)
  then show ?thesis by (simp add: all_items_iff) blast
qed

text \<open>Updates that keep an item's text and children.\<close>

lemma get_full_path_node_cong:
  "children m = children n \<Longrightarrow> get_full_path p m b = get_full_path p n b"
  by (cases b) simp_all

lemma get_item_node_cong:
  "children m = children n \<Longrightarrow> b \<noteq> [] \<Longrightarrow> get_item m b = get_item n b"
  by (cases b) simp_all

lemma get_full_path_update_flat:
  assumes "\<And>n. item_text (f n) = item_text n" "\<And>n. children (f n) = children n"
  shows "get_full_path p (update_item a f t) b = get_full_path p t b"
proof (rule get_full_path_update_item)
  show "item_text (f n) = item_text n" for n by (rule assms(1))
  show "get_full_path p (f n) b = get_full_path p n b" for n b p
    by (rule get_full_path_node_cong) (rule assms(2))
qed

lemma selected_update_item_root:
  "a \<noteq> [] \<Longrightarrow> selected (update_item a f t) = selected t"
  by (cases a; cases t) simp_all

lemma selected_update_flat:
  assumes ch: "\<And>n. children (f n) = children n"
  shows "map_option selected (get_item (update_item a f t) b) =
           (if b = a then map_option (\<lambda>n. selected (f n)) (get_item t b)
            else map_option selected (get_item t b))"
proof (induction a arbitrary: t b)
  case Nil
  show ?case
  proof (cases b)
    case Nil
    then show ?thesis by simp
  next
    case (Cons j b')
    then show ?thesis using get_item_node_cong[OF ch, of "j # b'" t] by simp
  qed
next
  case (Cons i a)
  obtain tx s ty opn ks where t: "t = TNode tx s ty opn ks" by (cases t)
  show ?case
  proof (cases b)
    case Nil
    then show ?thesis by (simp add: t)
  next
    case (Cons j b')
    show ?thesis
      using Cons.IH[of "ks ! i" b']
      by (auto simp: t Cons nth_list_update)
  qed
qed

lemma wf_tree_eq_children:
  "children m = children n \<Longrightarrow> wf_tree m = wf_tree n"
  by (cases m; cases n) simp

lemma wf_tree_update_flat:
  assumes tx: "\<And>n. item_text (f n) = item_text n" and ch: "\<And>n. children (f n) = children n"
  shows "wf_tree (update_item a f t) = wf_tree t"
proof (induction a arbitrary: t)
  case Nil
  then show ?case using wf_tree_eq_children[OF ch] by simp
next
  case (Cons i a)
  obtain tx' s ty opn ks where t: "t = TNode tx' s ty opn ks" by (cases t)
  show ?case
  proof (cases "i < length ks")
    case False
    then show ?thesis by (simp add: t)
  next
    case True
    let ?k = "update_item a f (ks ! i)"
    have txk: "item_text ?k = item_text (ks ! i)" by (rule item_text_update_item) (rule tx)
    have m: "map item_text (ks[i := ?k]) = map item_text ks"
      using txk by (simp add: map_update list_update_same_conv True)
    have wfk: "wf_tree ?k = wf_tree (ks ! i)" using Cons.IH .
    have "(\<forall>k \<in> set (ks[i := ?k]). name_ok (item_text k) \<and> wf_tree k) \<longleftrightarrow>
          (\<forall>k \<in> set ks. name_ok (item_text k) \<and> wf_tree k)"
    proof -
      have "(\<forall>k \<in> set (ks[i := ?k]). name_ok (item_text k) \<and> wf_tree k) \<longleftrightarrow>
            (\<forall>j < length ks. name_ok (item_text (ks[i := ?k] ! j)) \<and> wf_tree (ks[i := ?k] ! j))"
        by (simp add: all_set_conv_all_nth)
      also have "\<dots> \<longleftrightarrow> (\<forall>j < length ks. name_ok (item_text (ks ! j)) \<and> wf_tree (ks ! j))"
      proof -
        have pj: "(name_ok (item_text (ks[i := ?k] ! j)) \<and> wf_tree (ks[i := ?k] ! j)) =
                  (name_ok (item_text (ks ! j)) \<and> wf_tree (ks ! j))" if "j < length ks" for j
          using that txk wfk by (cases "j = i") simp_all
        show ?thesis using pj by blast
      qed
      also have "\<dots> \<longleftrightarrow> (\<forall>k \<in> set ks. name_ok (item_text k) \<and> wf_tree k)"
        by (simp add: all_set_conv_all_nth)
      finally show ?thesis .
    qed
    then show ?thesis using m True by (simp add: t)
  qed
qed

lemma tree_synced_synced:
  "tree_synced s = synced (root_directory s) (dir_tree s) (selected_items s)"
  by (simp add: tree_synced_iff synced_def)

lemma synced_set_selected:
  assumes wf: "wf_tree t" and sy: "synced r t sel"
    and pb: "get_full_path r t b = Some p"
    and sel': "fst ` set sel' = (if v = Checked then insert p (fst ` set sel) else fst ` set sel - {p})"
  shows "synced r (update_item b (set_selected v) t) sel'"
  unfolding synced_def
proof (intro allI impI)
  fix a n' q
  let ?t' = "update_item b (set_selected v) t"
  assume n': "get_item ?t' a = Some n'" and q': "get_full_path r ?t' a = Some q"
  have q: "get_full_path r t a = Some q"
    using q' by (simp add: get_full_path_set_selected)
  have su: "map_option selected (get_item ?t' a) =
          (if a = b then map_option (\<lambda>n. selected (set_selected v n)) (get_item t a)
           else map_option selected (get_item t a))"
    by (rule selected_update_flat) (simp add: set_selected_def)
  obtain n where n: "get_item t a = Some n"
    using q get_full_path_defined[of r t a] by (cases "get_item t a") auto
  show "selected n' = Checked \<longleftrightarrow> q \<in> fst ` set sel'"
  proof (cases "a = b")
    case True
    then have "q = p" using q pb by simp
    moreover have "selected n' = v" using su n n' True by (simp add: set_selected_def)
    ultimately show ?thesis using sel' by auto
  next
    case False
    have "q \<noteq> p" using get_full_path_inj[OF wf q, of b] pb False by auto
    moreover have "selected n' = selected n" using su n n' False by simp
    moreover have "selected n = Checked \<longleftrightarrow> q \<in> fst ` set sel"
      using sy n q by (simp add: synced_def)
    ultimately show ?thesis using sel' by (auto split: if_splits)
  qed
qed

lemma synced_flat_update:
  assumes tx: "\<And>n. item_text (f n) = item_text n" and ch: "\<And>n. children (f n) = children n"
    and se: "\<And>n. selected (f n) = selected n"
    and sy: "synced r t sel"
  shows "synced r (update_item b f t) sel"
  unfolding synced_def
proof (intro allI impI)
  fix a n' q
  let ?t' = "update_item b f t"
  assume n': "get_item ?t' a = Some n'" and q': "get_full_path r ?t' a = Some q"
  have q: "get_full_path r t a = Some q"
    using q' get_full_path_update_flat[of f r b t a, OF tx ch] by simp
  have su: "map_option selected (get_item ?t' a) = map_option selected (get_item t a)"
    using selected_update_flat[of f b t a, OF ch] by (simp add: se)
  obtain n where n: "get_item t a = Some n"
    using q get_full_path_defined[of r t a] by (cases "get_item t a") auto
  have "selected n' = selected n" using su n n' by simp
  then show "selected n' = Checked \<longleftrightarrow> q \<in> fst ` set sel"
    using sy n q by (simp add: synced_def)
qed

lemma distinct_remove_first:
  "distinct (map fst xs) \<Longrightarrow> distinct (map fst (remove_first P xs))"
proof (induction xs)
  case Nil
  then show ?case by simp
next
  case (Cons x xs)
  then show ?case using set_remove_first_subset[of P xs] by auto
qed

lemma paths_remove_first:
  "distinct (map fst xs) \<Longrightarrow>
     fst ` set (remove_first (\<lambda>e. fst e = p) xs) = fst ` set xs - {p}"
proof (induction xs)
  case Nil
  then show ?case by simp
next
  case (Cons x xs)
  show ?case
  proof (cases "fst x = p")
    case True
    then show ?thesis using Cons.prems by auto
  next
    case False
    then show ?thesis using Cons by auto
  qed
qed

lemma session_ok_click:
  assumes ok: "session_ok s"
  shows "session_ok (on_tree_checkbox_click s item)"
proof (cases "get_item (dir_tree s) item")
  case None
  then show ?thesis using ok by (simp add: on_tree_checkbox_click_def)
next
  case (Some n)
  obtain p where p: "get_full_path (root_directory s) (dir_tree s) item = Some p"
    using Some get_full_path_defined[of "root_directory s" "dir_tree s" item]
    by (cases "get_full_path (root_directory s) (dir_tree s) item") auto
  let ?s' = "on_tree_checkbox_click s item"
  have wf: "wf_tree (dir_tree s)" and di: "distinct (map fst (selected_items s))"
    and sy: "synced (root_directory s) (dir_tree s) (selected_items s)"
    using ok by (simp_all add: session_ok_def tree_synced_synced)
  have here: "selected n = Checked \<longleftrightarrow> p \<in> fst ` set (selected_items s)"
    using sy Some p by (simp add: synced_def)
  show ?thesis
  proof (cases "selected n = Checked")
    case True
    note c = click_checked[OF Some p True]
    have t': "dir_tree ?s' = update_item item (set_selected Unchecked) (dir_tree s)"
      using Some True
      by (simp add: on_tree_checkbox_click_def remove_tree_item_from_selection_def
          split: option.splits)
    have "synced (root_directory s) (dir_tree ?s') (selected_items ?s')"
      unfolding t'
      by (rule synced_set_selected[OF wf sy p]) (simp add: c(1) paths_remove_first[OF di])
    moreover have "wf_tree (dir_tree ?s')"
      unfolding t' using wf by (simp add: wf_tree_update_flat set_selected_def)
    moreover have "distinct (map fst (selected_items ?s'))"
      using c(1) distinct_remove_first[OF di] by simp
    ultimately show ?thesis using c(3) by (simp add: session_ok_def tree_synced_synced)
  next
    case False
    note c = click_unchecked[OF Some p False]
    have pn: "p \<notin> fst ` set (selected_items s)" using here False by simp
    have t': "dir_tree ?s' = update_item item (set_selected Checked) (dir_tree s)"
      using Some False
      by (simp add: on_tree_checkbox_click_def add_tree_item_to_selection_def Let_def
          split: option.splits)
    have "synced (root_directory s) (dir_tree ?s') (selected_items ?s')"
      unfolding t'
      by (rule synced_set_selected[OF wf sy p]) (simp add: c(1) pn)
    moreover have "wf_tree (dir_tree ?s')"
      unfolding t' using wf by (simp add: wf_tree_update_flat set_selected_def)
    moreover have "distinct (map fst (selected_items ?s'))"
      using c(1) di pn by simp
    ultimately show ?thesis using c(3) by (simp add: session_ok_def tree_synced_synced)
  qed
qed

lemma first_index_Some:
  "first_index name ks = Some i \<Longrightarrow> i < length ks \<and> item_text (ks ! i) = name"
  by (induction ks arbitrary: i) (auto split: if_splits)

lemma first_index_None:
  "first_index name ks = None \<Longrightarrow> name \<notin> item_text ` set ks"
  by (induction ks) (auto split: if_splits)

lemma mark_first_as_update:
  "mark_first name ks =
     (case first_index name ks of None \<Rightarrow> ks
      | Some i \<Rightarrow> ks[i := set_selected Checked (ks ! i)])"
  by (induction ks) (auto split: option.splits)

lemma set_children_same: "set_children (children n) n = n"
  by (cases n) (simp add: set_children_def)

lemma mark_child_as_update:
  "mark_child name n =
     (case first_index name (children n) of None \<Rightarrow> n
      | Some i \<Rightarrow> update_item [i] (set_selected Checked) n)"
proof (cases n)
  case (TNode tx s ty opn ks)
  then show ?thesis
    using first_index_Some[of name ks]
    by (auto simp: mark_child_def mark_first_as_update set_children_def split: option.splits)
qed

lemma update_item_append:
  "update_item (a @ b) f t = update_item a (update_item b f) t"
proof (induction a arbitrary: t)
  case Nil
  then show ?case by simp
next
  case (Cons i a)
  then show ?case by (cases t) simp
qed

lemma update_item_at_cong:
  "get_item t a = Some n \<Longrightarrow> f n = g n \<Longrightarrow> update_item a f t = update_item a g t"
proof (induction a arbitrary: t)
  case Nil
  then show ?case by simp
next
  case (Cons i a)
  then show ?case by (cases t) (auto split: if_splits)
qed

lemma update_item_at_id:
  "get_item t a = Some n \<Longrightarrow> f n = n \<Longrightarrow> update_item a f t = t"
proof (induction a arbitrary: t)
  case Nil
  then show ?case by simp
next
  case (Cons i a)
  then show ?case by (cases t) (auto split: if_splits simp: list_update_same_conv)
qed

lemma update_item_mark_child:
  assumes "get_item t a = Some n"
  shows "update_item a (mark_child name) t =
           (case first_index name (children n) of None \<Rightarrow> t
            | Some i \<Rightarrow> update_item (a @ [i]) (set_selected Checked) t)"
proof (cases "first_index name (children n)")
  case None
  then have "mark_child name n = n" by (simp add: mark_child_as_update)
  then show ?thesis using update_item_at_id[OF assms] None by simp
next
  case (Some i)
  then have "mark_child name n = update_item [i] (set_selected Checked) n"
    by (simp add: mark_child_as_update)
  then have "update_item a (mark_child name) t =
             update_item a (update_item [i] (set_selected Checked)) t"
    using update_item_at_cong[OF assms] by blast
  then show ?thesis using Some by (simp add: update_item_append)
qed

lemma no_item_with_new_path:
  assumes wf: "wf_tree t"
    and pa: "get_full_path r t a = Some pa" and na: "get_item t a = Some na"
    and ok: "name_ok name" and new: "name \<notin> item_text ` set (children na)"
  shows "get_full_path r t b \<noteq> Some (os_path_join pa name)"
proof
  assume b: "get_full_path r t b = Some (os_path_join pa name)"
  show False
  proof (cases b rule: rev_cases)
    case Nil
    then have "os_path_join pa name = r" using b by simp
    then show False
      using join_ok_props(3)[OF ok, of pa] get_full_path_length(1)[OF wf pa] by simp
  next
    case (snoc b' j)
    from b snoc obtain qb nb where
      qb: "get_full_path r t b' = Some qb" and nb: "get_item t b' = Some nb"
      and j: "j < length (children nb)"
      and q2: "os_path_join pa name = os_path_join qb (item_text (children nb ! j))"
      by (auto simp: get_full_path_snoc split: option.splits if_splits)
    have wb: "wf_tree nb" using wf_tree_get_item[OF wf nb] .
    have okb: "name_ok (item_text (children nb ! j))" using wf_tree_child[OF wb j] by simp
    have e: "pa = qb \<and> name = item_text (children nb ! j)"
      using join_inj_tree[OF wf pa qb ok okb q2] .
    then have "a = b'" using get_full_path_inj[OF wf pa] qb by simp
    then have "na = nb" using na nb by simp
    then show False using e new j by auto
  qed
qed

lemma select_child_keeps:
  "root_directory (select_child os fs item item_path s child_name) = root_directory s"
  by (simp add: select_child_def Let_def)

lemma session_ok_select_child:
  assumes ok: "session_ok s"
    and n: "get_item (dir_tree s) item = Some n"
    and p: "get_full_path (root_directory s) (dir_tree s) item = Some item_path"
    and nm: "name_ok child_name"
  shows "session_ok (select_child os fs item item_path s child_name)"
proof -
  let ?s' = "select_child os fs item item_path s child_name"
  let ?cp = "os_path_join item_path child_name"
  have wf: "wf_tree (dir_tree s)" and di: "distinct (map fst (selected_items s))"
    and sy: "synced (root_directory s) (dir_tree s) (selected_items s)"
    using ok by (simp_all add: session_ok_def tree_synced_synced)
  show ?thesis
  proof (cases "?cp \<in> fst ` set (selected_items s)")
    case True
    then have "?s' = s" by (simp add: select_child_def in_selection_list_iff)
    then show ?thesis using ok by simp
  next
    case False
    have sel': "selected_items ?s' = selected_items s @ [(?cp, isdir os fs ?cp)]"
      using False by (simp add: select_child_def in_selection_list_iff Let_def)
    have rt: "root_directory ?s' = root_directory s" by (rule select_child_keeps)
    have di': "distinct (map fst (selected_items ?s'))" using sel' di False by simp
    show ?thesis
    proof (cases "first_index child_name (children n)")
      case None
      have t': "dir_tree ?s' = dir_tree s"
        using False None update_item_mark_child[OF n, of child_name]
        by (simp add: select_child_def in_selection_list_iff Let_def)
      have nopath: "get_full_path (root_directory s) (dir_tree s) b \<noteq> Some ?cp" for b
        using no_item_with_new_path[OF wf p n nm first_index_None[OF None]] .
      have "synced (root_directory s) (dir_tree s) (selected_items ?s')"
        unfolding synced_def
      proof (intro allI impI)
        fix a m q
        assume m: "get_item (dir_tree s) a = Some m"
          and q: "get_full_path (root_directory s) (dir_tree s) a = Some q"
        have "q \<noteq> ?cp" using nopath[of a] q by auto
        moreover have "selected m = Checked \<longleftrightarrow> q \<in> fst ` set (selected_items s)"
          using sy m q by (simp add: synced_def)
        ultimately show "selected m = Checked \<longleftrightarrow> q \<in> fst ` set (selected_items ?s')"
          using sel' by auto
      qed
      then show ?thesis using t' rt wf di' by (simp add: session_ok_def tree_synced_synced)
    next
      case (Some i)
      have t': "dir_tree ?s' = update_item (item @ [i]) (set_selected Checked) (dir_tree s)"
        using False Some update_item_mark_child[OF n, of child_name]
        by (simp add: select_child_def in_selection_list_iff Let_def)
      have pi: "get_full_path (root_directory s) (dir_tree s) (item @ [i]) = Some ?cp"
        using first_index_Some[OF Some] n p by (simp add: get_full_path_snoc)
      have "synced (root_directory s) (dir_tree ?s') (selected_items ?s')"
        unfolding t'
        by (rule synced_set_selected[OF wf sy pi]) (simp add: sel')
      moreover have "wf_tree (dir_tree ?s')"
        unfolding t' using wf by (simp add: wf_tree_update_flat set_selected_def)
      ultimately show ?thesis using rt di' by (simp add: session_ok_def tree_synced_synced)
    qed
  qed
qed

lemma select_child_item:
  assumes n: "get_item (dir_tree s) item = Some n"
    and p: "get_full_path (root_directory s) (dir_tree s) item = Some item_path"
  shows "get_item (dir_tree (select_child os fs item item_path s child_name)) item \<noteq> None \<and>
         get_full_path (root_directory s) (dir_tree (select_child os fs item item_path s child_name)) item
           = Some item_path"
proof -
  have tx: "item_text (mark_child child_name m) = item_text m" for m
    by (simp add: mark_child_def set_children_def)
  have pth: "get_full_path q (mark_child child_name m) b = get_full_path q m b" for q m b
  proof (cases "first_index child_name (children m)")
    case None
    then show ?thesis by (simp add: mark_child_as_update)
  next
    case (Some i)
    then have "mark_child child_name m = update_item [i] (set_selected Checked) m"
      by (simp add: mark_child_as_update)
    then show ?thesis by (simp only: get_full_path_set_selected)
  qed
  have g: "get_full_path q (update_item item (mark_child child_name) t) b = get_full_path q t b"
    for q t b
    by (rule get_full_path_update_item) (simp_all add: tx pth)
  have "get_full_path (root_directory s) (dir_tree (select_child os fs item item_path s child_name)) item
           = Some item_path"
    using p g by (simp add: select_child_def Let_def)
  then show ?thesis
    using get_full_path_defined[of "root_directory s"
        "dir_tree (select_child os fs item item_path s child_name)" item] by auto
qed

lemma session_ok_select_loop:
  assumes "session_ok s"
    and "get_item (dir_tree s) item \<noteq> None"
    and "get_full_path (root_directory s) (dir_tree s) item = Some item_path"
    and "list_all name_ok names"
  shows "session_ok (foldl (select_child os fs item item_path) s names)"
  using assms
proof (induction names arbitrary: s)
  case Nil
  then show ?case by simp
next
  case (Cons x xs)
  from Cons.prems(2) obtain n where n: "get_item (dir_tree s) item = Some n" by auto
  let ?s1 = "select_child os fs item item_path s x"
  have "session_ok ?s1"
  proof -
    have "name_ok x" using Cons.prems(4) by simp
    then show ?thesis by (rule session_ok_select_child[OF Cons.prems(1) n Cons.prems(3)])
  qed
  moreover have "get_item (dir_tree ?s1) item \<noteq> None"
    and "get_full_path (root_directory ?s1) (dir_tree ?s1) item = Some item_path"
    using select_child_item[OF n Cons.prems(3), of os fs x] by (simp_all add: select_child_keeps)
  ultimately show ?case using Cons.IH[of ?s1] Cons.prems(4) by simp
qed

lemma item_text_update_all:
  "item_text (update_node_and_children b t) = item_text t"
  by (cases t) simp

lemma wf_tree_update_all:
  "wf_tree (update_node_and_children b t) = wf_tree t"
proof (induction t)
  case (TNode tx s ty opn ks)
  have m: "map (item_text \<circ> update_node_and_children b) ks = map item_text ks"
    by (simp add: item_text_update_all)
  show ?case using TNode.IH by (simp add: m item_text_update_all)
qed

lemma get_item_update_all:
  "get_item (update_node_and_children b t) a =
     map_option (update_node_and_children b) (get_item t a)"
proof (induction a arbitrary: t)
  case Nil
  then show ?case by simp
next
  case (Cons i a)
  then show ?case by (cases t) simp
qed

lemma selected_update_all:
  "selected (update_node_and_children False t) = Unchecked"
  by (cases t) simp

lemma session_ok_clear:
  assumes "wf_tree (dir_tree s)"
  shows "session_ok (clear_selection s)"
proof -
  have "synced (root_directory s) (update_node_and_children False (dir_tree s)) []"
    by (auto simp: synced_def get_item_update_all selected_update_all)
  then show ?thesis
    using assms
    by (simp add: session_ok_def tree_synced_synced clear_selection_def
        update_all_dir_tree_checkboxes_def wf_tree_update_all)
qed

lemma session_ok_frame:
  assumes "session_ok s" "dir_tree s' = dir_tree s" "selected_items s' = selected_items s"
    "root_directory s' = root_directory s"
  shows "session_ok s'"
  using assms by (simp add: session_ok_def tree_synced_synced)

lemma session_ok_set_open:
  assumes "session_ok s"
  shows "session_ok (s\<lparr>dir_tree := update_item item (set_open v) (dir_tree s)\<rparr>)"
proof -
  have "synced (root_directory s) (update_item item (set_open v) (dir_tree s)) (selected_items s)"
    by (rule synced_flat_update) (use assms in \<open>simp_all add: set_open_def session_ok_def tree_synced_synced\<close>)
  moreover have "wf_tree (update_item item (set_open v) (dir_tree s)) = wf_tree (dir_tree s)"
    by (rule wf_tree_update_flat) (simp_all add: set_open_def)
  ultimately show ?thesis using assms by (simp add: session_ok_def tree_synced_synced)
qed

lemma session_ok_select_contents:
  assumes names: "os_names_ok os" and ok: "session_ok s"
  shows "session_ok (select_tree_item_contents os fs s item)"
proof (cases "get_item (dir_tree s) item")
  case None
  then show ?thesis using ok by (simp add: select_tree_item_contents_def)
next
  case (Some n)
  obtain p where p: "get_full_path (root_directory s) (dir_tree s) item = Some p"
    using Some get_full_path_defined[of "root_directory s" "dir_tree s" item]
    by (cases "get_full_path (root_directory s) (dir_tree s) item") auto
  show ?thesis
  proof (cases "ntype n = ''Folder''")
    case False
    then show ?thesis using ok Some p by (simp add: select_tree_item_contents_def)
  next
    case True
    let ?s1 = "s\<lparr>dir_tree := update_item item (set_open True) (dir_tree s)\<rparr>"
    have ok1: "session_ok ?s1" using session_ok_set_open[OF ok] .
    have p1: "get_full_path (root_directory ?s1) (dir_tree ?s1) item = Some p"
      using p get_full_path_update_flat[of "set_open True" "root_directory s" item "dir_tree s" item]
      by (simp add: set_open_def)
    have n1: "get_item (dir_tree ?s1) item \<noteq> None"
      using p1 get_full_path_defined[of "root_directory ?s1" "dir_tree ?s1" item] by auto
    show ?thesis
    proof (cases "listdir os fs p")
      case (Inl e)
      have "session_ok (?s1\<lparr>dialogs := d\<rparr>)" for d
        by (rule session_ok_frame[OF ok1]) simp_all
      then show ?thesis
        using Some p True Inl ok1
        by (cases e) (simp_all add: select_tree_item_contents_def Let_def)
    next
      case (Inr names')
      then have "list_all name_ok names'" using names by (auto simp: os_names_ok_def)
      then have "session_ok (foldl (select_child os fs item p) ?s1 names')"
        by (rule session_ok_select_loop[OF ok1 n1 p1])
      then show ?thesis
        using Some p True Inr by (simp add: select_tree_item_contents_def Let_def)
    qed
  qed
qed

lemma session_ok_step:
  assumes "os_names_ok os" "session_ok s"
  shows "session_ok (tree_step os s op)"
proof (cases op)
  case (ToggleCheck item)
  then show ?thesis using session_ok_click[OF assms(2)] by simp
next
  case (SelectContents fs item)
  then show ?thesis using session_ok_select_contents[OF assms] by simp
next
  case ClearSelection
  then show ?thesis using session_ok_clear assms(2) by (simp add: session_ok_def)
qed

lemma session_ok_run:
  assumes "os_names_ok os" "session_ok s"
  shows "session_ok (foldl (tree_step os) s ops)"
  using assms(2)
proof (induction ops arbitrary: s)
  case Nil
  then show ?case by simp
next
  case (Cons op ops)
  then show ?case using session_ok_step[OF assms(1)] by simp
qed

section \<open>Claims about the tree and the selection\<close>

lemma on_tree_checkbox_click_cases:
  "on_tree_checkbox_click s item =
     (case get_item (dir_tree s) item of
        None \<Rightarrow> s
      | Some n \<Rightarrow> if selected n = Checked then deselect_tree_item s item
                  else select_tree_item s item)"
  by (simp add: on_tree_checkbox_click_def select_tree_item_def deselect_tree_item_def
      split: option.splits)

lemma select_tree_item_effect:
  assumes "get_item (dir_tree s) item = Some n"
    and "get_full_path (root_directory s) (dir_tree s) item = Some p"
  shows "selected_items (select_tree_item s item) =
           (if p \<in> fst ` set (selected_items s) then selected_items s
            else selected_items s @ [(p, ntype n = ''Folder'')])"
    and "get_item (dir_tree (select_tree_item s item)) item = Some (set_selected Checked n)"
    and "get_full_path (root_directory (select_tree_item s item))
           (dir_tree (select_tree_item s item)) item = Some p"
  using assms
  by (simp_all add: select_tree_item_def add_tree_item_to_selection_def
      get_full_path_set_selected get_item_update_same in_selection_list_iff set_selected_def Let_def)

lemma deselect_tree_item_effect:
  assumes "get_item (dir_tree s) item = Some n"
    and "get_full_path (root_directory s) (dir_tree s) item = Some p"
  shows "selected_items (deselect_tree_item s item) =
           remove_first (\<lambda>e. fst e = p) (selected_items s)"
    and "get_item (dir_tree (deselect_tree_item s item)) item = Some (set_selected Unchecked n)"
proof -
  have nf: "\<not> list_ex P xs \<Longrightarrow> remove_first P xs = xs" for P and xs :: "(string \<times> bool) list"
    by (induction xs) auto
  show "selected_items (deselect_tree_item s item) =
           remove_first (\<lambda>e. fst e = p) (selected_items s)"
    using assms nf[of "\<lambda>e. fst e = p" "selected_items s"]
    by (simp add: deselect_tree_item_def remove_tree_item_from_selection_def
        get_full_path_set_selected in_selection_list_def)
  show "get_item (dir_tree (deselect_tree_item s item)) item = Some (set_selected Unchecked n)"
    using assms
    by (simp add: deselect_tree_item_def remove_tree_item_from_selection_def
        get_full_path_set_selected get_item_update_same)
qed

text \<open>
  Claim C9, as amended. Clicking the checkbox of an item twice gives back the selection's
  membership (the set of selected paths), and the item's box as it was, provided the
  box agreed with the selection list before the clicks: the click reads the box, not the
  list. Independently of that, for a path \<open>p\<close> that is not selected, selecting the item
  adds the entry \<open>(p, kind)\<close> and deselecting it again leaves the selection list as it
  was, without \<open>p\<close>, and the item's box unchecked.
\<close>

theorem toggle_twice_restores_selection:
  assumes "get_item (dir_tree s) item = Some n"
    and "get_full_path (root_directory s) (dir_tree s) item = Some p"
  shows "((selected n = Checked) = (p \<in> fst ` set (selected_items s)) \<longrightarrow>
            fst ` set (selected_items (on_tree_checkbox_click (on_tree_checkbox_click s item) item))
              = fst ` set (selected_items s) \<and>
            map_option (\<lambda>m. selected m = Checked)
              (get_item (dir_tree (on_tree_checkbox_click (on_tree_checkbox_click s item) item)) item)
              = Some (selected n = Checked)) \<and>
         (p \<notin> fst ` set (selected_items s) \<longrightarrow>
            selected_items (select_tree_item s item) =
              selected_items s @ [(p, ntype n = ''Folder'')] \<and>
            selected_items (deselect_tree_item (select_tree_item s item) item) = selected_items s \<and>
            p \<notin> fst ` set (selected_items (deselect_tree_item (select_tree_item s item) item)) \<and>
            map_option selected
              (get_item (dir_tree (deselect_tree_item (select_tree_item s item) item)) item)
              = Some Unchecked)"
proof (intro conjI impI)
  assume sync: "(selected n = Checked) = (p \<in> fst ` set (selected_items s))"
  show "fst ` set (selected_items (on_tree_checkbox_click (on_tree_checkbox_click s item) item))
          = fst ` set (selected_items s)"
    using toggle_twice_effect(1)[OF assms] sync by simp
  show "map_option (\<lambda>m. selected m = Checked)
          (get_item (dir_tree (on_tree_checkbox_click (on_tree_checkbox_click s item) item)) item)
          = Some (selected n = Checked)"
    using toggle_twice_effect(2)[OF assms] sync by simp
next
  assume new: "p \<notin> fst ` set (selected_items s)"
  let ?s1 = "select_tree_item s item"
  let ?s2 = "deselect_tree_item ?s1 item"
  note a = select_tree_item_effect[OF assms]
  note d = deselect_tree_item_effect[OF a(2) a(3)]
  have nex: "\<not> list_ex (\<lambda>e. fst e = p) (selected_items s)"
    using new by (auto simp: list_ex_iff)
  show s1: "selected_items ?s1 = selected_items s @ [(p, ntype n = ''Folder'')]"
    using a(1) new by simp
  show s2: "selected_items ?s2 = selected_items s"
    using d(1) s1 nex by (simp add: remove_first_append_new)
  show "p \<notin> fst ` set (selected_items ?s2)"
    using s2 new by simp
  show "map_option selected (get_item (dir_tree ?s2) item) = Some Unchecked"
    using d(2) by (simp add: set_selected_def)
qed

theorem toggle_twice_restores_selection_witness:
  "get_item (dir_tree demo_session) [0, 0] = Some (TNode ''a.txt'' Unchecked ''File'' False []) \<and>
   get_full_path (root_directory demo_session) (dir_tree demo_session) [0, 0] = Some ''/r/d/a.txt'' \<and>
   fst ` set (selected_items
      (on_tree_checkbox_click (on_tree_checkbox_click demo_session [0, 0]) [0, 0])) = {} \<and>
   selected_items (select_tree_item demo_session [0, 0]) = [(''/r/d/a.txt'', False)] \<and>
   selected_items (deselect_tree_item (select_tree_item demo_session [0, 0]) [0, 0]) = [] \<and>
   map_option selected
     (get_item (dir_tree (deselect_tree_item (select_tree_item demo_session [0, 0]) [0, 0])) [0, 0])
     = Some Unchecked"
proof -
  have i: "get_item (dir_tree demo_session) [0, 0] = Some (TNode ''a.txt'' Unchecked ''File'' False [])"
    by (simp add: demo_session_def demo_tree_def)
  have p: "get_full_path (root_directory demo_session) (dir_tree demo_session) [0, 0]
             = Some ''/r/d/a.txt''"
    by (simp add: demo_session_def demo_tree_def os_path_join_def sep_def)
  have e: "selected_items demo_session = []" by (simp add: demo_session_def)
  show ?thesis
    using toggle_twice_restores_selection[OF i p] i p e by simp
qed

text \<open>
  Claim C9 as stated fails. Check \<open>a.txt\<close>, collapse its folder, remove the entry
  through the selected-items list (the search for the tree item skips closed folders, so
  the box stays checked), open the folder again: the selection is empty, and two clicks
  on the box of \<open>a.txt\<close> leave \<open>a.txt\<close> selected.
\<close>

theorem toggle_twice_counterexample:
  "selected_items stale_box_session = [] \<and>
   selected_items (on_tree_checkbox_click (on_tree_checkbox_click stale_box_session [0, 0]) [0, 0])
     = [(''/r/d/a.txt'', False)]"
  by code_simp

text \<open>
  Claim C4. From a session whose tree is well formed and in step with a selection list
  without repeated paths (a fresh session is one), after any sequence of checkbox
  clicks, select-contents and clear-selection, every item of the tree shows the checked
  box exactly when its path is in the selection list. The filesystem is assumed to list
  proper names only.
\<close>

theorem checked_iff_selected:
  assumes "os_names_ok os"
    and "wf_tree (dir_tree s)"
    and "distinct (map fst (selected_items s))"
    and "tree_synced s"
  shows "tree_synced (foldl (tree_step os) s ops)"
  using session_ok_run[OF assms(1), of s ops] assms(2-4) by (simp add: session_ok_def)

lemma basename_sepfree: "sep \<notin> set (os_path_basename p)"
proof -
  have "\<forall>c \<in> set (takeWhile (\<lambda>c. c \<noteq> sep) (rev p)). c \<noteq> sep"
    by (auto dest: set_takeWhileD)
  then show ?thesis by (auto simp: os_path_basename_def)
qed

lemma demo_os_names_ok: "os_names_ok demo_os"
  by (auto simp: os_names_ok_def demo_os_def demo_listdir_def list_all_iff name_ok_def
      basename_sepfree)

theorem checked_iff_selected_witness:
  "os_names_ok demo_os \<and> wf_tree (dir_tree demo_session) \<and>
   distinct (map fst (selected_items demo_session)) \<and> tree_synced demo_session \<and>
   tree_synced (foldl (tree_step demo_os) demo_session
      [ToggleCheck [0, 1], SelectContents demo_disk [0], ToggleCheck [0, 0],
       ClearSelection, ToggleCheck [1]])"
proof -
  have w: "wf_tree (dir_tree demo_session)"
    by (simp add: demo_session_def demo_tree_def name_ok_def sep_def)
  have d: "distinct (map fst (selected_items demo_session))"
    by (simp add: demo_session_def)
  have t: "tree_synced demo_session"
    by (simp add: tree_synced_def demo_session_def demo_tree_def in_selection_list_def)
  have c: "tree_synced (foldl (tree_step demo_os) demo_session
      [ToggleCheck [0, 1], SelectContents demo_disk [0], ToggleCheck [0, 0],
       ClearSelection, ToggleCheck [1]])"
    by (rule checked_iff_selected[OF demo_os_names_ok w d t])
  show ?thesis
    using demo_os_names_ok w d t c by blast
qed

section \<open>Facts about the request pipeline\<close>

lemma check_ai_thread_raised:
  assumes "result_queue s < length (queues s)"
    and "queues s ! result_queue s = Raised msg # rest"
  shows "check_ai_thread s =
           s\<lparr>queues := (queues s)[result_queue s := rest],
             dialogs := dialogs s @ [ShowError ''Error'' (''Failed to get AI suggestions: '' @ msg)],
             status_label := [], suggestions_button := True, apply_button := True\<rparr>"
  using assms by (simp add: check_ai_thread_def Let_def)

lemma get_ai_suggestions_selected:
  "selected_items (get_ai_suggestions s) = selected_items s \<and>
   dir_tree (get_ai_suggestions s) = dir_tree s \<and>
   results_tree (get_ai_suggestions s) = results_tree s"
  by (simp add: get_ai_suggestions_def check_ai_thread_def)

lemma thread_finishes_selected:
  "selected_items (thread_finishes k out s) = selected_items s \<and>
   dir_tree (thread_finishes k out s) = dir_tree s \<and>
   results_tree (thread_finishes k out s) = results_tree s"
  by (simp add: thread_finishes_def Let_def)


















lemma get_ai_suggestions_issue:
  assumes "idle s" "selected_items s \<noteq> []"
  shows "suggestions_button (get_ai_suggestions s) = False"
    and "after_calls (get_ai_suggestions s) = 1"
    and "result_queue (get_ai_suggestions s) = length (queues s)"
    and "queues (get_ai_suggestions s) = queues s @ [[]]"
    and "threads (get_ai_suggestions s) = [length (queues s)]"
  using assms by (simp_all add: get_ai_suggestions_def check_ai_thread_def idle_def)







section \<open>Claims about the request pipeline\<close>









text \<open>
  Claim C7. When the poll finds an exception in the queue it shows the error dialog, and
  leaves the selection list, the tree and the table as they are, and enables the button
  again. Issuing the request and the worker's delivery do not touch the selection
  either, so over a whole failed request, from the click to the poll, the selection is
  the one before the request.
\<close>

theorem failed_request_keeps_selection:
  "(result_queue s < length (queues s) \<and> queues s ! result_queue s = Raised msg # rest \<longrightarrow>
      selected_items (check_ai_thread s) = selected_items s \<and>
      dir_tree (check_ai_thread s) = dir_tree s \<and>
      results_tree (check_ai_thread s) = results_tree s \<and>
      dialogs (check_ai_thread s) =
        dialogs s @ [ShowError ''Error'' (''Failed to get AI suggestions: '' @ msg)] \<and>
      suggestions_button (check_ai_thread s)) \<and>
   selected_items (get_ai_suggestions s) = selected_items s \<and>
   selected_items (thread_finishes k out s) = selected_items s \<and>
   (idle s \<and> selected_items s \<noteq> [] \<and> run_ai_request_thread fmt loads r = Raised msg \<longrightarrow>
      selected_items
        (foldl (fire fmt loads) s [ClickSuggestions, ThreadDone 0 r, AfterTimer]) = selected_items s \<and>
      dialogs (foldl (fire fmt loads) s [ClickSuggestions, ThreadDone 0 r, AfterTimer]) =
        dialogs s @ [ShowError ''Error'' (''Failed to get AI suggestions: '' @ msg)] \<and>
      idle (foldl (fire fmt loads) s [ClickSuggestions, ThreadDone 0 r, AfterTimer]))"
proof (intro conjI impI)
  assume a: "result_queue s < length (queues s) \<and> queues s ! result_queue s = Raised msg # rest"
  then have c: "check_ai_thread s =
           s\<lparr>queues := (queues s)[result_queue s := rest],
             dialogs := dialogs s @ [ShowError ''Error'' (''Failed to get AI suggestions: '' @ msg)],
             status_label := [], suggestions_button := True, apply_button := True\<rparr>"
    using check_ai_thread_raised[of s msg rest] by simp
  show "selected_items (check_ai_thread s) = selected_items s"
    and "dir_tree (check_ai_thread s) = dir_tree s"
    and "results_tree (check_ai_thread s) = results_tree s"
    and "dialogs (check_ai_thread s) =
        dialogs s @ [ShowError ''Error'' (''Failed to get AI suggestions: '' @ msg)]"
    and "suggestions_button (check_ai_thread s)"
    by (simp_all add: c)
next
  show "selected_items (get_ai_suggestions s) = selected_items s"
    by (simp add: get_ai_suggestions_selected)
  show "selected_items (thread_finishes k out s) = selected_items s"
    by (simp add: thread_finishes_selected)
next
  assume a: "idle s \<and> selected_items s \<noteq> [] \<and> run_ai_request_thread fmt loads r = Raised msg"
  let ?s1 = "get_ai_suggestions s"
  let ?s2 = "thread_finishes 0 (Raised msg) ?s1"
  let ?s2' = "?s2\<lparr>after_calls := after_calls ?s2 - 1\<rparr>"
  let ?s3 = "check_ai_thread ?s2'"
  from a have idl: "idle s" and ne: "selected_items s \<noteq> []" by simp_all
  note g = get_ai_suggestions_issue[OF idl ne]
  have d1: "dialogs ?s1 = dialogs s"
    using ne by (simp add: get_ai_suggestions_def check_ai_thread_def)
  have s2: "?s2 = ?s1\<lparr>queues := (queues s @ [[]])[length (queues s) := [Raised msg]], threads := []\<rparr>"
    using g by (simp add: thread_finishes_def delete_row_def)
  have q: "result_queue ?s2' < length (queues ?s2')"
    "queues ?s2' ! result_queue ?s2' = Raised msg # []"
    using g by (simp_all add: s2)
  note c = check_ai_thread_raised[OF q]
  have run: "foldl (fire fmt loads) s [ClickSuggestions, ThreadDone 0 r, AfterTimer] = ?s3"
    using a g by (simp add: idle_def s2)
  show "selected_items (foldl (fire fmt loads) s [ClickSuggestions, ThreadDone 0 r, AfterTimer])
          = selected_items s"
    unfolding run c by (simp add: s2 get_ai_suggestions_selected)
  show "dialogs (foldl (fire fmt loads) s [ClickSuggestions, ThreadDone 0 r, AfterTimer]) =
        dialogs s @ [ShowError ''Error'' (''Failed to get AI suggestions: '' @ msg)]"
    unfolding run c by (simp add: s2 d1)
  show "idle (foldl (fire fmt loads) s [ClickSuggestions, ThreadDone 0 r, AfterTimer])"
    unfolding run c using g by (simp add: s2 idle_def)
qed

theorem failed_request_keeps_selection_witness:
  "idle collision_session \<and> selected_items collision_session \<noteq> [] \<and>
   run_ai_request_thread (\<lambda>v. []) demo_json_loads (PostRaised ''timed out'') = Raised ''timed out'' \<and>
   selected_items (foldl (fire (\<lambda>v. []) demo_json_loads) collision_session
       [ClickSuggestions, ThreadDone 0 (PostRaised ''timed out''), AfterTimer])
     = selected_items collision_session \<and>
   dialogs (foldl (fire (\<lambda>v. []) demo_json_loads) collision_session
       [ClickSuggestions, ThreadDone 0 (PostRaised ''timed out''), AfterTimer])
     = dialogs collision_session @
       [ShowError ''Error'' (''Failed to get AI suggestions: '' @ ''timed out'')]"
proof -
  have i: "idle collision_session" by (simp add: idle_def collision_session_def demo_session_def)
  have n: "selected_items collision_session \<noteq> []"
    by (simp add: collision_session_def demo_session_def)
  have r: "run_ai_request_thread (\<lambda>v. []) demo_json_loads (PostRaised ''timed out'')
             = Raised ''timed out''"
    by (simp add: run_ai_request_thread_def)
  note t = failed_request_keeps_selection[where s=collision_session and msg="''timed out''"
      and fmt="\<lambda>v. []" and loads=demo_json_loads and r="PostRaised ''timed out''"]
  show ?thesis using t i n r by blast
qed

section \<open>Rejecting suggestions\<close>

lemma find_in_selection:
  "find P sel = Some (path, is_folder) \<Longrightarrow> in_selection_list path sel"
  by (induction sel) (auto simp: in_selection_list_def split: if_splits)

lemma reject_readd_id: "reject_readd s r = s"
  by (auto simp: reject_readd_def find_in_selection split: option.splits)

lemma reject_rows_frame:
  "reject_rows s rs = (s', kept) \<Longrightarrow>
     selected_items s' = selected_items s \<and> dir_tree s' = dir_tree s \<and>
     items_tree s' = items_tree s"
proof (induction rs arbitrary: s s' kept)
  case Nil
  then show ?case by simp
next
  case (Cons r rs)
  show ?case
  proof (cases "in_selection r \<and> rename_suggestions s (original r) \<noteq> None")
    case True
    then have "reject_rows
        (s\<lparr>rename_suggestions := (rename_suggestions s)(original r := None)\<rparr>) rs = (s', kept)"
      using Cons.prems by (simp add: reject_readd_id)
    from Cons.IH[OF this] show ?thesis by simp
  next
    case False
    then obtain k where "reject_rows s rs = (s', k)"
      using Cons.prems by (auto split: prod.splits)
    from Cons.IH[OF this] show ?thesis .
  qed
qed

text \<open>
  The branch of \<open>reject_selected_suggestions\<close> that adds an entry back is never taken:
  the path is looked up in the selection list and added only when it is not there.
\<close>

lemma reject_never_reselects:
  "selected_items (reject_selected_suggestions s) = selected_items s \<and>
   dir_tree (reject_selected_suggestions s) = dir_tree s \<and>
   items_tree (reject_selected_suggestions s) = items_tree s"
proof (cases "filter in_selection (results_tree s) = []")
  case True
  then show ?thesis by (simp add: reject_selected_suggestions_def)
next
  case False
  obtain s' kept where r: "reject_rows s (results_tree s) = (s', kept)"
    by (cases "reject_rows s (results_tree s)")
  from reject_rows_frame[OF r] show ?thesis
    using False r by (simp add: reject_selected_suggestions_def)
qed

text \<open>
  Claim C2, on the session of the specification's example after the answer arrived:
  rejecting the row \<open>a.txt \<rightarrow> a2.txt\<close> deletes the row, but \<open>a.txt\<close> is not selected
  again and no checkbox of the tree changes.
\<close>

theorem reject_after_completion:
  "selected_items partial_answer_session = [] \<and>
   results_tree (reject_selected_suggestions partial_answer_session) = [] \<and>
   selected_items (reject_selected_suggestions partial_answer_session) = [] \<and>
   dir_tree (reject_selected_suggestions partial_answer_session) = demo_tree"
  by code_simp

section \<open>Facts about applying renames\<close>

lemma find_Some_props:
  "find P xs = Some x \<Longrightarrow> P x \<and> x \<in> set xs"
  by (induction xs) (auto split: if_splits)

lemma find_None_iff_ex: "find P xs = None \<longleftrightarrow> \<not> list_ex P xs"
  by (induction xs) auto

lemma apply_row_unresolved:
  assumes "\<not> list_ex (\<lambda>e. os_path_basename (fst e) = original r) (selected_items (session st))"
  shows "apply_row os st r = st"
proof -
  have "find (\<lambda>e. os_path_basename (fst e) = original r) (selected_items (session st)) = None"
    using assms by (simp add: find_None_iff_ex)
  then show ?thesis by (simp add: apply_row_def Let_def)
qed

lemma apply_row_cases:
  obtains (skip) "apply_row os st r = st"
  | (renamed) p k fs' where
      "original r \<noteq> suggested r" "(p, k) \<in> set (selected_items (session st))"
      "os_path_basename p = original r" "p \<noteq> []"
      "rename os (disk st) p (os_path_join (os_path_dirname p) (suggested r)) = Inr fs'"
      "apply_row os st r =
         st\<lparr>disk := fs', renamed_count := renamed_count st + 1,
            rename_calls := rename_calls st @
              [(p, os_path_join (os_path_dirname p) (suggested r), True)],
            session := (session st)\<lparr>selected_items :=
              replace_first (p, k) (os_path_join (os_path_dirname p) (suggested r), k)
                (selected_items (session st))\<rparr>\<rparr>"
  | (failed) p k msg where
      "original r \<noteq> suggested r" "(p, k) \<in> set (selected_items (session st))"
      "os_path_basename p = original r" "p \<noteq> []"
      "rename os (disk st) p (os_path_join (os_path_dirname p) (suggested r)) = Inl msg"
      "apply_row os st r =
         st\<lparr>error_count := error_count st + 1,
            rename_calls := rename_calls st @
              [(p, os_path_join (os_path_dirname p) (suggested r), False)],
            session := (session st)\<lparr>dialogs := dialogs (session st) @
              [ShowError ''Error'' (''Failed to rename '' @ original r @ '': '' @ msg)]\<rparr>\<rparr>"
proof (cases "original r = suggested r")
  case True
  then show ?thesis using skip by (simp add: apply_row_def)
next
  case ne: False
  show ?thesis
  proof (cases "find (\<lambda>e. os_path_basename (fst e) = original r) (selected_items (session st))")
    case None
    then show ?thesis using skip by (simp add: apply_row_def Let_def)
  next
    case (Some e)
    obtain p k where e: "e = (p, k)" by (cases e)
    from find_Some_props[OF Some] have pk: "os_path_basename p = original r"
      "(p, k) \<in> set (selected_items (session st))" by (simp_all add: e)
    show ?thesis
    proof (cases "p = []")
      case True
      then show ?thesis using skip Some e by (simp add: apply_row_def Let_def)
    next
      case pne: False
      show ?thesis
      proof (cases "rename os (disk st) p (os_path_join (os_path_dirname p) (suggested r))")
        case (Inl msg)
        show ?thesis
          by (rule failed[OF ne pk(2) pk(1) pne Inl])
             (use ne Some e pne Inl in \<open>simp add: apply_row_def Let_def\<close>)
      next
        case (Inr fs')
        show ?thesis
          by (rule renamed[OF ne pk(2) pk(1) pne Inr])
             (use ne Some e pne Inr in \<open>simp add: apply_row_def Let_def\<close>)
      qed
    qed
  qed
qed


















lemma apply_row_root:
  "root_directory (session (apply_row os st r)) = root_directory (session st)"
  by (cases rule: apply_row_cases[of os st r]) simp_all

lemma batch_root:
  "root_directory (session (foldl (apply_row os) st rows)) = root_directory (session st)"
  by (induction rows arbitrary: st) (simp_all add: apply_row_root)

lemma populate_dialogs:
  "\<exists>warn. (warn = [] \<or> warn = [ShowWarning ''Permission Error'' (''Cannot access '' @ root_directory s)]) \<and>
      (case populate_directory_tree os fs s of Inl s' \<Rightarrow> dialogs s' | Inr s' \<Rightarrow> dialogs s')
         = dialogs s @ warn"
  by (auto simp: populate_directory_tree_def Let_def split: sum.splits os_error.splits)

lemma apply_renames_dialogs_eq:
  assumes "filter in_selection (results_tree s) \<noteq> []"
  shows "\<exists>warn. (warn = [] \<or>
                  warn = [ShowWarning ''Permission Error'' (''Cannot access '' @ root_directory s)]) \<and>
           dialogs (snd (apply_renames os fs s)) =
             dialogs (session (apply_batch os fs s)) @
             apply_summary (renamed_count (apply_batch os fs s)) (error_count (apply_batch os fs s)) @
             warn"
proof -
  let ?st = "apply_batch os fs s"
  let ?s1 = "(session ?st)\<lparr>dialogs := dialogs (session ?st) @
                     apply_summary (renamed_count ?st) (error_count ?st)\<rparr>"
  have rd: "root_directory ?s1 = root_directory s"
    by (simp add: apply_batch_def batch_root)
  from populate_dialogs[of ?s1 os "disk ?st"] obtain warn where
    w: "warn = [] \<or> warn = [ShowWarning ''Permission Error'' (''Cannot access '' @ root_directory s)]"
    and d: "(case populate_directory_tree os (disk ?st) ?s1 of
               Inl s' \<Rightarrow> dialogs s' | Inr s' \<Rightarrow> dialogs s') = dialogs ?s1 @ warn"
    using rd by auto
  have "dialogs (snd (apply_renames os fs s)) =
          (case populate_directory_tree os (disk ?st) ?s1 of
               Inl s' \<Rightarrow> dialogs s' | Inr s' \<Rightarrow> dialogs s')"
    using assms by (simp add: apply_renames_def Let_def split: sum.splits)
  then have "dialogs (snd (apply_renames os fs s)) =
      dialogs (session ?st) @ apply_summary (renamed_count ?st) (error_count ?st) @ warn"
    using d by simp
  then show ?thesis using w by blast
qed

lemma foldl_fixed: "(\<And>x. x \<in> set xs \<Longrightarrow> f a x = a) \<Longrightarrow> foldl f a xs = a"
  by (induction xs) simp_all

section \<open>Claims about applying renames\<close>







text \<open>
  Claim C10, as amended. A row whose original basename matches no entry of the
  selection list as it is when the row is reached (the list is re-keyed by the renames
  made earlier in the batch) leaves the state as it is: no call, no count. If no
  selected row matches the selection list at the start of the batch, nothing is called
  or counted, the filesystem is unchanged, and the summary is the message that nothing
  needed renaming, although rows were selected.
\<close>

theorem unresolved_rows_skipped:
  "(\<not> list_ex (\<lambda>e. os_path_basename (fst e) = original r) (selected_items (session st)) \<longrightarrow>
      apply_row os st r = st) \<and>
   ((\<forall>r \<in> set (results_tree s). in_selection r \<longrightarrow>
        \<not> list_ex (\<lambda>e. os_path_basename (fst e) = original r) (selected_items s)) \<longrightarrow>
      apply_batch os fs s =
        \<lparr>disk = fs, session = s, renamed_count = 0, error_count = 0, rename_calls = []\<rparr> \<and>
      fst (apply_renames os fs s) = fs \<and>
      (filter in_selection (results_tree s) \<noteq> [] \<longrightarrow>
         (\<exists>warn. dialogs (snd (apply_renames os fs s)) =
                   dialogs s @ [ShowInfo ''Info'' ''No items needed renaming.''] @ warn)))"
proof (intro conjI impI)
  assume "\<not> list_ex (\<lambda>e. os_path_basename (fst e) = original r) (selected_items (session st))"
  then show "apply_row os st r = st" by (rule apply_row_unresolved)
next
  assume none: "\<forall>r \<in> set (results_tree s). in_selection r \<longrightarrow>
        \<not> list_ex (\<lambda>e. os_path_basename (fst e) = original r) (selected_items s)"
  let ?i = "\<lparr>disk = fs, session = s, renamed_count = 0, error_count = 0,
              rename_calls = []\<rparr> :: 'a apply_state"
  have "apply_row os ?i x = ?i" if "x \<in> set (filter in_selection (results_tree s))" for x
    by (rule apply_row_unresolved) (use that none in auto)
  then show b: "apply_batch os fs s = ?i"
    unfolding apply_batch_def by (rule foldl_fixed)
  show "fst (apply_renames os fs s) = fs"
    using b by (simp add: apply_renames_def Let_def split: sum.splits)
  assume sel: "filter in_selection (results_tree s) \<noteq> []"
  from apply_renames_dialogs_eq[OF sel, of os fs] obtain warn where
    "dialogs (snd (apply_renames os fs s)) =
       dialogs (session (apply_batch os fs s)) @
       apply_summary (renamed_count (apply_batch os fs s)) (error_count (apply_batch os fs s)) @ warn"
    by blast
  then have "dialogs (snd (apply_renames os fs s)) =
      dialogs s @ [ShowInfo ''Info'' ''No items needed renaming.''] @ warn"
    using b by (simp add: apply_summary_def)
  then show "\<exists>warn. dialogs (snd (apply_renames os fs s)) =
                   dialogs s @ [ShowInfo ''Info'' ''No items needed renaming.''] @ warn"
    by blast
qed

theorem unresolved_rows_skipped_witness:
  "results_tree partial_answer_session = [Row ''a.txt'' ''a2.txt'' ''File'' True] \<and>
   selected_items partial_answer_session = [] \<and>
   apply_row demo_os
     \<lparr>disk = demo_disk, session = partial_answer_session, renamed_count = 0, error_count = 0,
        rename_calls = []\<rparr>
     (Row ''a.txt'' ''a2.txt'' ''File'' True) =
     \<lparr>disk = demo_disk, session = partial_answer_session, renamed_count = 0, error_count = 0,
        rename_calls = []\<rparr> \<and>
   apply_batch demo_os demo_disk partial_answer_session =
     \<lparr>disk = demo_disk, session = partial_answer_session, renamed_count = 0, error_count = 0,
        rename_calls = []\<rparr> \<and>
   fst (apply_renames demo_os demo_disk partial_answer_session) = demo_disk \<and>
   (\<exists>warn. dialogs (snd (apply_renames demo_os demo_disk partial_answer_session)) =
      dialogs partial_answer_session @ [ShowInfo ''Info'' ''No items needed renaming.''] @ warn)"
proof -
  have rt: "results_tree partial_answer_session = [Row ''a.txt'' ''a2.txt'' ''File'' True]"
    by code_simp
  have sl: "selected_items partial_answer_session = []" by code_simp
  have h: "\<forall>r \<in> set (results_tree partial_answer_session). in_selection r \<longrightarrow>
      \<not> list_ex (\<lambda>e. os_path_basename (fst e) = original r) (selected_items partial_answer_session)"
    by (simp add: rt sl)
  have f: "filter in_selection (results_tree partial_answer_session) \<noteq> []"
    by (simp add: rt)
  have one: "\<not> list_ex (\<lambda>e. os_path_basename (fst e) = original (Row ''a.txt'' ''a2.txt'' ''File'' True))
      (selected_items (session \<lparr>disk = demo_disk, session = partial_answer_session,
         renamed_count = 0, error_count = 0, rename_calls = []\<rparr>))"
    by (simp add: sl)
  note t = unresolved_rows_skipped[where os=demo_os and fs=demo_disk and s=partial_answer_session
      and r="Row ''a.txt'' ''a2.txt'' ''File'' True"
      and st="\<lparr>disk = demo_disk, session = partial_answer_session, renamed_count = 0,
         error_count = 0, rename_calls = []\<rparr>"]
  show ?thesis using t h f one rt sl by blast
qed

text \<open>
  Claim C10 as stated fails for the selection list as it is when apply starts: with
  only \<open>/r/d/a.txt\<close> selected and the rows \<open>a.txt \<rightarrow> c.txt\<close>, \<open>c.txt \<rightarrow> z.txt\<close>, the
  second row matches no entry at the start, yet after the first rename it matches the
  re-keyed entry and \<open>/r/d/c.txt\<close> is renamed to \<open>/r/d/z.txt\<close>.
\<close>

theorem unresolved_rows_counterexample:
  "selected_items chain_session = [(''/r/d/a.txt'', False)] \<and>
   results_tree chain_session =
     [Row ''a.txt'' ''c.txt'' ''File'' True, Row ''c.txt'' ''z.txt'' ''File'' True] \<and>
   rename_calls (apply_batch demo_os demo_disk chain_session) =
     [(''/r/d/a.txt'', ''/r/d/c.txt'', True), (''/r/d/c.txt'', ''/r/d/z.txt'', True)] \<and>
   renamed_count (apply_batch demo_os demo_disk chain_session) = 2"
  by code_simp

end
